theory Spec2Isabelle
  imports Main "HOL-Library.Sublist" "HOL-Library.AList"
begin

section \<open>Stash items (src/model/index.ts)\<close>

text \<open>
  \<^verbatim>\<open>StashItem = NewTab | NewFolder | ModelItem\<close> and
  \<^verbatim>\<open>ModelItem = Bookmarks.Node | Tabs.Tab\<close>. A new item has no \<^verbatim>\<open>id\<close>
  field; a tab has a numeric id, a bookmark node a string id. A bookmark node is a
  bookmark, a folder or a separator. The folder case carries the nodes that
  \<^verbatim>\<open>this.bookmarks.childrenOf(folder)\<close> yields for it: the bookmark tree is
  finite, so the children of a folder are nested in the value.
\<close>

type_synonym NodeID = string
type_synonym TabID = int

datatype NewItem =
    NewTab "string option" string
  | NewFolder string "NewItem list"

record Tab =
  tab_id :: TabID
  tab_title :: string
  tab_url :: string

datatype Node =
    Bookmark NodeID string string
  | Folder NodeID string "Node list"
  | Separator NodeID

datatype StashItem =
    New NewItem
  | TabItem Tab
  | NodeItem Node

datatype ItemID = NumberID TabID | StringID NodeID

fun item_id :: "StashItem \<Rightarrow> ItemID option" where
  "item_id (New n) = None"
| "item_id (TabItem t) = Some (NumberID (tab_id t))"
| "item_id (NodeItem (Bookmark i t u)) = Some (StringID i)"
| "item_id (NodeItem (Folder i t cs)) = Some (StringID i)"
| "item_id (NodeItem (Separator i)) = Some (StringID i)"


definition isTab :: "StashItem \<Rightarrow> bool" where
  "isTab item = (case item_id item of Some (NumberID n) \<Rightarrow> True | _ \<Rightarrow> False)"

definition isNode :: "StashItem \<Rightarrow> bool" where
  "isNode item = (case item_id item of Some (StringID s) \<Rightarrow> True | _ \<Rightarrow> False)"

fun Bookmarks_isBookmark :: "Node \<Rightarrow> bool" where
  "Bookmarks_isBookmark (Bookmark i t u) = True"
| "Bookmarks_isBookmark n = False"

fun Bookmarks_isFolder :: "Node \<Rightarrow> bool" where
  "Bookmarks_isFolder (Folder i t cs) = True"
| "Bookmarks_isFolder n = False"

fun isFolder :: "StashItem \<Rightarrow> bool" where
  "isFolder (NodeItem n) = Bookmarks_isFolder n"
| "isFolder item = False"



fun node_id :: "Node \<Rightarrow> NodeID" where
  "node_id (Bookmark i t u) = i"
| "node_id (Folder i t cs) = i"
| "node_id (Separator i) = i"

subsection \<open>copying\<close>

text \<open>
  Modelled from the spec: \<^verbatim>\<open>filterMap(array, fn)\<close> of \<^verbatim>\<open>../util\<close> is not among the
  sources. It keeps, in order, the results of the callback that are not undefined: the
  callback of \<^verbatim>\<open>copying\<close> returns nothing for a separator ("Separators are excluded").
\<close>

fun filterMap :: "'a list \<Rightarrow> ('a \<Rightarrow> 'b option) \<Rightarrow> 'b list" where
  "filterMap [] f = []"
| "filterMap (x # xs) f = (case f x of None \<Rightarrow> filterMap xs f | Some y \<Rightarrow> y # filterMap xs f)"

lemma filterMap_cong [fundef_cong]:
  "xs = ys \<Longrightarrow> (\<And>x. x \<in> set ys \<Longrightarrow> f x = g x) \<Longrightarrow> filterMap xs f = filterMap ys g"
  by (induction ys arbitrary: xs) (auto split: option.splits)

text \<open>
  The callback of \<^verbatim>\<open>copying\<close>: the result for one item, \<open>None\<close> where the callback
  falls off its end (a separator). The recursive call \<^verbatim>\<open>this.copying(childrenOf(item))\<close>
  is the \<open>filterMap\<close> over the folder's children.
\<close>

fun item_size :: "StashItem \<Rightarrow> nat" where
  "item_size (NodeItem n) = size n"
| "item_size item = 0"

function copying_item :: "StashItem \<Rightarrow> NewItem option" where
  "copying_item (New n) = Some n"
| "copying_item (TabItem t) = Some (NewTab (Some (tab_title t)) (tab_url t))"
| "copying_item (NodeItem (Bookmark i t u)) = Some (NewTab (Some t) u)"
| "copying_item (NodeItem (Folder i t cs)) =
     Some (NewFolder t (filterMap (map NodeItem cs) copying_item))"
| "copying_item (NodeItem (Separator i)) = None"
  by pat_completeness auto
termination
proof (relation "measure item_size")
  fix i t :: string and cs :: "Node list" and x :: StashItem
  assume "x \<in> set (map NodeItem cs)"
  then obtain c where c: "c \<in> set cs" "x = NodeItem c" by auto
  have "size c < Suc (size_list size cs)" using c(1) by (induction cs) auto
  then show "(x, NodeItem (Folder i t cs)) \<in> measure item_size" using c(2) by simp
qed simp

definition copying :: "StashItem list \<Rightarrow> NewItem list" where
  "copying items = filterMap items copying_item"


subsection \<open>isURLStashable\<close>

text \<open>
  The collaborators of \<^verbatim>\<open>isURLStashable\<close> are parameters: the browser-settings
  model's \<^verbatim>\<open>isNewTabURL\<close>, the \<^verbatim>\<open>URL\<close> constructor (which throws on a string it
  cannot parse) and \<^verbatim>\<open>browser.runtime.getURL("")\<close>.
\<close>

datatype exn = Error string | UserError string | TypeError string

record browser_env =
  isNewTabURL :: "string \<Rightarrow> bool"
  new_URL :: "string \<Rightarrow> exn + string"
  runtime_getURL :: string

definition isURLStashable :: "browser_env \<Rightarrow> string option \<Rightarrow> bool" where
  "isURLStashable env url_str =
     (case url_str of
        None \<Rightarrow> False
      | Some u \<Rightarrow>
          if u = [] then False
          else if isNewTabURL env u then False
          else (case new_URL env u of
                  Inl e \<Rightarrow> False
                | Inr parsed \<Rightarrow> \<not> prefix (runtime_getURL env) u))"

subsection \<open>attempt\<close>

text \<open>
  An async function is a state transformer that ends in a rejection (\<open>Inl\<close>) or a
  result (\<open>Inr\<close>). The state records, in order, what \<^verbatim>\<open>logError\<close> was given and each
  call of \<^verbatim>\<open>this.reload()\<close>; \<^verbatim>\<open>attempt\<close> does not wait for the reload.
\<close>

datatype effect = LogError exn | Reload

record 'w sys =
  world :: 'w
  effects :: "effect list"

definition logError :: "exn \<Rightarrow> 'w sys \<Rightarrow> 'w sys" where
  "logError e s = s\<lparr>effects := effects s @ [LogError e]\<rparr>"

definition reload :: "'w sys \<Rightarrow> 'w sys" where
  "reload s = s\<lparr>effects := effects s @ [Reload]\<rparr>"

definition attempt :: "('w sys \<Rightarrow> (exn + 'r) \<times> 'w sys) \<Rightarrow> 'w sys \<Rightarrow> (exn + 'r) \<times> 'w sys" where
  "attempt fn s =
     (case fn s of
        (Inr r, s') \<Rightarrow> (Inr r, s')
      | (Inl e, s') \<Rightarrow> (Inl e, reload (logError e s')))"

text \<open>A browser environment and an async function, for the examples.\<close>

definition env0 :: browser_env where
  "env0 = \<lparr>isNewTabURL = (\<lambda>u. u = ''about:newtab''),
           new_URL = (\<lambda>u. if CHR '':'' \<in> set u then Inr u else Inl (TypeError ''Invalid URL'')),
           runtime_getURL = ''ext://id/''\<rparr>"

definition failing_fn :: "nat sys \<Rightarrow> (exn + nat) \<times> nat sys" where
  "failing_fn s = (if world s = 0 then (Inl (Error ''boom''), s\<lparr>world := 1\<rparr>) else (Inr (world s), s))"

section \<open>The bookmark tree store (src/model/bookmarks.ts, described in the specification)\<close>

text \<open>
  Modelled from the spec: the bookmark model \<^verbatim>\<open>src/model/bookmarks.ts\<close> is not among the
  sources; only its test \<^verbatim>\<open>bookmarks.test.ts\<close> and its caller \<^verbatim>\<open>index.ts\<close> are. The
  data model follows section 3 of the specification: a node has the common fields id,
  parentId, index, title and dateAdded and is a bookmark (with its url), a folder or a
  separator. The store holds the three indexes of section 4.1: by id, by parent (the
  ordered children of a folder, which are the \<^verbatim>\<open>children\<close> of the folder node) and by
  url. The keys of the url index are the url strings, as in the tests
  (\<^verbatim>\<open>by_url.get('/new')\<close>). Aggregate statistics, selection state and the change
  notifications are left out: no property below speaks of them.
\<close>

datatype kind = BookmarkKind string | FolderKind | SeparatorKind

record bookmark_node =
  nid :: NodeID
  parentId :: "NodeID option"
  index :: nat
  title :: string
  dateAdded :: "nat option"
  kind :: kind

record store =
  by_id :: "(NodeID \<times> bookmark_node) list"
  by_parent :: "NodeID \<Rightarrow> NodeID list"
  by_url :: "string \<Rightarrow> NodeID list"

definition empty_store :: store where
  "empty_store = \<lparr>by_id = [], by_parent = (\<lambda>p. []), by_url = (\<lambda>u. [])\<rparr>"

definition node :: "store \<Rightarrow> NodeID \<Rightarrow> bookmark_node option" where
  "node s i = map_of (by_id s) i"

text \<open>
  Modelled from the spec: the changes that \<^verbatim>\<open>apply()\<close> accepts (section 4.1), with the
  payloads of the inbound events of section 6, and the error kinds of section 7. A result
  is \<open>None\<close> when the operation does not return, \<open>Some (Inl e)\<close> when it is rejected
  with the store left as it was, and \<open>Some (Inr s)\<close> when it ends in the store \<open>s\<close>.
\<close>

record details =
  d_id :: NodeID
  d_title :: string
  d_dateAdded :: "nat option"
  d_kind :: kind

record patch =
  p_title :: "string option"
  p_url :: "string option"

datatype change =
    Insert details NodeID nat
  | Update NodeID patch
  | Move NodeID NodeID nat
  | Remove NodeID
  | RemoveTree NodeID

datatype error = StructuralViolation | NotFound | ExternalCommandFailure

type_synonym 'a result = "(error + 'a) option"

definition ok :: "'a \<Rightarrow> 'a result" where
  "ok x = Some (Inr x)"

definition fail :: "error \<Rightarrow> 'a result" where
  "fail e = Some (Inl e)"

definition and_then :: "'a result \<Rightarrow> ('a \<Rightarrow> 'b result) \<Rightarrow> 'b result" where
  "and_then m f = (case m of None \<Rightarrow> None | Some (Inl e) \<Rightarrow> Some (Inl e) | Some (Inr x) \<Rightarrow> f x)"

subsection \<open>Steps on the indexes\<close>

text \<open>
  Modelled from the spec: the steps the operations of section 4.1 are made of. A node is
  taken out of its parent's children at its index, "closing the gap by decrementing later
  siblings' indices" (\<open>detach\<close>), and put into a parent's children at a target index,
  "incrementing siblings at/after target" (\<open>attach\<close>). A bookmark is entered in and
  taken out of the bucket of its url.
\<close>

definition map_nodes :: "(NodeID \<Rightarrow> bookmark_node \<Rightarrow> bookmark_node) \<Rightarrow> store \<Rightarrow> store" where
  "map_nodes f s = s\<lparr>by_id := map (\<lambda>(i, n). (i, f i n)) (by_id s)\<rparr>"

definition url_add :: "NodeID \<Rightarrow> kind \<Rightarrow> store \<Rightarrow> store" where
  "url_add i k s =
     (case k of
        BookmarkKind u \<Rightarrow> s\<lparr>by_url := (by_url s)(u := removeAll i (by_url s u) @ [i])\<rparr>
      | _ \<Rightarrow> s)"

definition url_remove :: "NodeID \<Rightarrow> kind \<Rightarrow> store \<Rightarrow> store" where
  "url_remove i k s =
     (case k of
        BookmarkKind u \<Rightarrow> s\<lparr>by_url := (by_url s)(u := removeAll i (by_url s u))\<rparr>
      | _ \<Rightarrow> s)"

definition new_node :: "details \<Rightarrow> bookmark_node" where
  "new_node d = \<lparr>nid = d_id d, parentId = None, index = 0, title = d_title d,
                 dateAdded = d_dateAdded d, kind = d_kind d\<rparr>"

definition add_node :: "store \<Rightarrow> bookmark_node \<Rightarrow> store" where
  "add_node s n = url_add (nid n) (kind n) (s\<lparr>by_id := by_id s @ [(nid n, n)]\<rparr>)"

definition delete_node :: "store \<Rightarrow> NodeID \<Rightarrow> store" where
  "delete_node s i =
     (case node s i of
        None \<Rightarrow> s
      | Some n \<Rightarrow> url_remove i (kind n) (s\<lparr>by_id := AList.delete i (by_id s)\<rparr>))"

definition remove_at :: "nat \<Rightarrow> 'a list \<Rightarrow> 'a list" where
  "remove_at k xs = take k xs @ drop (Suc k) xs"

definition insert_at :: "nat \<Rightarrow> 'a \<Rightarrow> 'a list \<Rightarrow> 'a list" where
  "insert_at k x xs = take k xs @ x # drop k xs"

definition detach :: "store \<Rightarrow> NodeID \<Rightarrow> store" where
  "detach s i =
     (case node s i of
        None \<Rightarrow> s
      | Some n \<Rightarrow>
          (case parentId n of
             None \<Rightarrow> s
           | Some p \<Rightarrow>
               (map_nodes
                  (\<lambda>j m. if j = i then m\<lparr>parentId := None, index := 0\<rparr>
                         else if parentId m = Some p \<and> index n < index m
                           then m\<lparr>index := index m - 1\<rparr>
                         else m) s)
               \<lparr>by_parent := (by_parent s)
                  (p := remove_at (index n) (by_parent s p))\<rparr>))"

definition attach :: "store \<Rightarrow> NodeID \<Rightarrow> NodeID \<Rightarrow> nat \<Rightarrow> store" where
  "attach s i p k =
     (map_nodes
        (\<lambda>j m. if j = i then m\<lparr>parentId := Some p, index := k\<rparr>
               else if parentId m = Some p \<and> k \<le> index m
                 then m\<lparr>index := Suc (index m)\<rparr>
               else m) s)
     \<lparr>by_parent := (by_parent s)(p := insert_at k i (by_parent s p))\<rparr>"

definition set_fields :: "store \<Rightarrow> NodeID \<Rightarrow> string \<Rightarrow> nat option \<Rightarrow> kind \<Rightarrow> store" where
  "set_fields s i t da k =
     (case node s i of
        None \<Rightarrow> s
      | Some old \<Rightarrow>
          url_add i k
            (url_remove i (kind old)
               (map_nodes (\<lambda>j m. if j = i then m\<lparr>title := t, dateAdded := da, kind := k\<rparr> else m) s)))"

subsection \<open>The path to a node\<close>

text \<open>
  Modelled from the spec: \<^verbatim>\<open>positionOf\<close> and \<^verbatim>\<open>pathTo\<close> of the bookmark model
  (section 4.4). As \<^verbatim>\<open>index.ts\<close> uses it (\<^verbatim>\<open>pathTo(to_folder).map(p => p.parent.id)\<close>),
  the path is the sequence of positions, a parent folder and an index each, from the tree
  root down to the node. The loop walks up the parents; in a store whose parent links form
  a cycle it does not end, which is the value \<open>None\<close>.
\<close>

record NodePosition =
  pos_parent :: NodeID
  pos_index :: nat

definition positionOf :: "store \<Rightarrow> NodeID \<Rightarrow> NodePosition option" where
  "positionOf s i =
     (case node s i of
        None \<Rightarrow> None
      | Some n \<Rightarrow>
          (case parentId n of
             None \<Rightarrow> None
           | Some p \<Rightarrow> Some \<lparr>pos_parent = p, pos_index = index n\<rparr>))"

partial_function (option) pathTo_loop :: "store \<Rightarrow> NodeID \<Rightarrow> NodePosition list \<Rightarrow> NodePosition list option" where
  "pathTo_loop s i path =
     (case positionOf s i of
        None \<Rightarrow> Some path
      | Some pos \<Rightarrow> pathTo_loop s (pos_parent pos) (pos # path))"

definition pathTo :: "store \<Rightarrow> NodeID \<Rightarrow> NodePosition list option" where
  "pathTo s i = pathTo_loop s i []"

declare pathTo_loop.simps [code]

definition depth :: "store \<Rightarrow> NodeID \<Rightarrow> nat option" where
  "depth s i = map_option length (pathTo s i)"

subsection \<open>Applying a change\<close>

text \<open>
  Modelled from the spec: \<^verbatim>\<open>apply(change)\<close> of section 4.1.
  \<^item> A change for a node that is no longer in the store, or under a parent that is not,
    is a no-op (section 7, NotFound for replayed events).
  \<^item> Move rejects a new parent that is the node itself or one of its descendants
    (sections 4.1 and 4.3), a new parent that is not a folder, and a target index beyond
    the end of the new parent's children; it then detaches and attaches the node.
  \<^item> Insert of an id that is not in the store adds the node and attaches it, with the same
    checks on the parent and the index. Insert of an id that is in the store overwrites
    the fields of the node in place and moves it to the given position; a folder that has
    children cannot be overwritten by a node that is not a folder.
  \<^item> Update merges the title and, for a bookmark, the url.
  \<^item> Remove rejects a node that has children, detaches the node and deletes it from the
    indexes. RemoveTree removes the subtrees of the children first, then the node.
\<close>

definition apply_move :: "store \<Rightarrow> NodeID \<Rightarrow> NodeID \<Rightarrow> nat \<Rightarrow> store result" where
  "apply_move s i np k =
     (case node s i of
        None \<Rightarrow> ok s
      | Some n \<Rightarrow>
          (case node s np of
             None \<Rightarrow> ok s
           | Some pn \<Rightarrow>
               if kind pn \<noteq> FolderKind then fail StructuralViolation
               else (case pathTo s np of
                       None \<Rightarrow> None
                     | Some path \<Rightarrow>
                         if np = i \<or> i \<in> set (map pos_parent path) then fail StructuralViolation
                         else if length (by_parent (detach s i) np) < k then fail StructuralViolation
                         else ok (attach (detach s i) i np k))))"

definition overwrite :: "store \<Rightarrow> details \<Rightarrow> store" where
  "overwrite s d = set_fields s (d_id d) (d_title d) (d_dateAdded d) (d_kind d)"

definition apply_insert :: "store \<Rightarrow> details \<Rightarrow> NodeID \<Rightarrow> nat \<Rightarrow> store result" where
  "apply_insert s d p k =
     (case node s (d_id d) of
        Some old \<Rightarrow>
          if by_parent s (d_id d) \<noteq> [] \<and> d_kind d \<noteq> FolderKind then fail StructuralViolation
          else apply_move (overwrite s d) (d_id d) p k
      | None \<Rightarrow>
          (case node s p of
             None \<Rightarrow> ok s
           | Some pn \<Rightarrow>
               if kind pn \<noteq> FolderKind then fail StructuralViolation
               else if length (by_parent s p) < k then fail StructuralViolation
               else ok (attach (add_node s (new_node d)) (d_id d) p k)))"

definition apply_update :: "store \<Rightarrow> NodeID \<Rightarrow> patch \<Rightarrow> store result" where
  "apply_update s i pt =
     (case node s i of
        None \<Rightarrow> ok s
      | Some n \<Rightarrow>
          ok (set_fields s i
                (case p_title pt of None \<Rightarrow> title n | Some t \<Rightarrow> t)
                (dateAdded n)
                (case (kind n, p_url pt) of
                   (BookmarkKind u, Some u') \<Rightarrow> BookmarkKind u'
                 | (k, _) \<Rightarrow> k)))"

definition apply_remove :: "store \<Rightarrow> NodeID \<Rightarrow> store result" where
  "apply_remove s i =
     (case node s i of
        None \<Rightarrow> ok s
      | Some n \<Rightarrow>
          if by_parent s i \<noteq> [] then fail StructuralViolation
          else ok (delete_node (detach s i) i))"

partial_function (option) removeTree_loop :: "store \<Rightarrow> NodeID \<Rightarrow> store option" where
  "removeTree_loop s i =
     (case by_parent s i of
        [] \<Rightarrow> Some (delete_node (detach s i) i)
      | c # cs \<Rightarrow> Option.bind (removeTree_loop s c) (\<lambda>s'. removeTree_loop s' i))"

declare removeTree_loop.simps [code]

definition apply_removeTree :: "store \<Rightarrow> NodeID \<Rightarrow> store result" where
  "apply_removeTree s i =
     (case node s i of
        None \<Rightarrow> ok s
      | Some n \<Rightarrow> map_option Inr (removeTree_loop s i))"

fun apply_change :: "store \<Rightarrow> change \<Rightarrow> store result" where
  "apply_change s (Insert d p k) = apply_insert s d p k"
| "apply_change s (Update i pt) = apply_update s i pt"
| "apply_change s (Move i np k) = apply_move s i np k"
| "apply_change s (Remove i) = apply_remove s i"
| "apply_change s (RemoveTree i) = apply_removeTree s i"

subsection \<open>Bulk load\<close>

text \<open>
  Modelled from the spec: \<^verbatim>\<open>load\<close> (section 4.1) imports the tree that the browser
  returns into the empty store: the root first, then every child at its position,
  a folder before its own children.
\<close>

datatype BookmarkTreeNode = BookmarkTreeNode details "BookmarkTreeNode list"

fun load_node :: "BookmarkTreeNode \<Rightarrow> NodeID \<Rightarrow> nat \<Rightarrow> store \<Rightarrow> store result"
  and load_children :: "BookmarkTreeNode list \<Rightarrow> NodeID \<Rightarrow> nat \<Rightarrow> store \<Rightarrow> store result" where
  "load_node (BookmarkTreeNode d cs) p k s =
     and_then (apply_insert s d p k) (load_children cs (d_id d) 0)"
| "load_children [] p k s = ok s"
| "load_children (t # ts) p k s = and_then (load_node t p k s) (load_children ts p (Suc k))"

fun load :: "BookmarkTreeNode \<Rightarrow> store result" where
  "load (BookmarkTreeNode d cs) =
     load_children cs (d_id d) 0 (add_node empty_store (new_node d))"





subsection \<open>The stash root\<close>

text \<open>
  Modelled from the spec: the stash-root resolver of the bookmark model (section 4.2). The
  candidates are the folders whose title is the designated name; the resolved root is a
  candidate with the shortest path from the tree root, the first such one in the store.
  The warning follows the tests of \<^verbatim>\<open>bookmarks.test.ts\<close>: it is set after a second
  candidate is created at the same level ("finds multiple stash roots at the same level")
  and stays undefined after one is created deeper in the tree ("finds the topmost stash
  root", "follows the topmost stash root"); so it is set when more than one candidate
  has the shortest path.
\<close>

definition candidates :: "store \<Rightarrow> string \<Rightarrow> bookmark_node list" where
  "candidates s name = filter (\<lambda>n. kind n = FolderKind \<and> title n = name) (map snd (by_id s))"

fun with_depths :: "store \<Rightarrow> bookmark_node list \<Rightarrow> (bookmark_node \<times> nat) list option" where
  "with_depths s [] = Some []"
| "with_depths s (c # cs) =
     (case depth s (nid c) of
        None \<Rightarrow> None
      | Some d \<Rightarrow> (case with_depths s cs of None \<Rightarrow> None | Some r \<Rightarrow> Some ((c, d) # r)))"

definition topmost :: "(bookmark_node \<times> nat) list \<Rightarrow> (bookmark_node \<times> nat) list" where
  "topmost ps = filter (\<lambda>(c, d). d \<le> min_list (map snd ps)) ps"

definition stash_root :: "store \<Rightarrow> string \<Rightarrow> bookmark_node option option" where
  "stash_root s name =
     map_option (\<lambda>ps. case topmost ps of [] \<Rightarrow> None | (c, d) # rest \<Rightarrow> Some c)
       (with_depths s (candidates s name))"

definition stash_root_warning :: "store \<Rightarrow> string \<Rightarrow> bool option" where
  "stash_root_warning s name =
     map_option (\<lambda>ps. 1 < length (topmost ps)) (with_depths s (candidates s name))"

text \<open>The specification's sentence on the warning, as it is written.\<close>

definition warning_when_two :: "store \<Rightarrow> string \<Rightarrow> bool" where
  "warning_when_two s name \<longleftrightarrow>
     stash_root_warning s name = Some (2 \<le> length (candidates s name))"

subsection \<open>The consistency of the indexes\<close>

text \<open>
  The links from a node to its parent; the store's invariant, in five parts: the keys of
  the id index, the place of every node that has a parent, the node in every slot of
  a children sequence, the absence of cycles, and the url index.
\<close>

definition parent_rel :: "store \<Rightarrow> (NodeID \<times> NodeID) set" where
  "parent_rel s = {(p, c). \<exists>n. node s c = Some n \<and> parentId n = Some p}"

definition keys_ok :: "store \<Rightarrow> bool" where
  "keys_ok s \<longleftrightarrow> distinct (map fst (by_id s)) \<and> (\<forall>i n. node s i = Some n \<longrightarrow> nid n = i)"

definition child_ok :: "store \<Rightarrow> bool" where
  "child_ok s \<longleftrightarrow>
     (\<forall>c n p. node s c = Some n \<longrightarrow> parentId n = Some p \<longrightarrow>
        (\<exists>pn. node s p = Some pn \<and> kind pn = FolderKind)
        \<and> index n < length (by_parent s p) \<and> by_parent s p ! index n = c)"

definition slots_ok :: "store \<Rightarrow> bool" where
  "slots_ok s \<longleftrightarrow>
     (\<forall>p k. k < length (by_parent s p) \<longrightarrow>
        (\<exists>n. node s (by_parent s p ! k) = Some n \<and> parentId n = Some p \<and> index n = k))"

definition urls_ok :: "store \<Rightarrow> bool" where
  "urls_ok s \<longleftrightarrow>
     (\<forall>u i. i \<in> set (by_url s u) \<longleftrightarrow> (\<exists>n. node s i = Some n \<and> kind n = BookmarkKind u))
     \<and> (\<forall>u. distinct (by_url s u))"

definition store_inv :: "store \<Rightarrow> bool" where
  "store_inv s \<longleftrightarrow> keys_ok s \<and> child_ok s \<and> slots_ok s \<and> wf (parent_rel s) \<and> urls_ok s"

text \<open>
  For the proofs: a result that returns and keeps the invariant; what removing the subtree
  of \<open>i\<close> does to the store; and what loading subtrees with the ids \<open>ids\<close> as \<open>m\<close>
  further children of \<open>p\<close> does to it.
\<close>

definition inv_result :: "store result \<Rightarrow> bool" where
  "inv_result r \<longleftrightarrow> (\<exists>x. r = Some x \<and> (\<forall>s'. x = Inr s' \<longrightarrow> store_inv s'))"

definition removed :: "store \<Rightarrow> NodeID \<Rightarrow> store \<Rightarrow> bool" where
  "removed s i s' \<longleftrightarrow>
     store_inv s' \<and> node s' i = None \<and> length (by_id s') < length (by_id s)
     \<and> parent_rel s' \<subseteq> parent_rel s
     \<and> (\<forall>x. node s x \<noteq> None \<longrightarrow> (i, x) \<notin> (parent_rel s)\<^sup>* \<longrightarrow> node s' x \<noteq> None)"


text \<open>
  The consistency that the specification asks for, for every node that has a parent: the
  node is once in the children of that parent, at its index, and in no other children
  sequence; a node without a parent is in none; the indexes of the children of a parent
  are 0, 1, 2, ... in order.
\<close>

definition consistent :: "store \<Rightarrow> bool" where
  "consistent s \<longleftrightarrow>
     (\<forall>c n p. node s c = Some n \<longrightarrow> parentId n = Some p \<longrightarrow>
        (\<forall>q. count_list (by_parent s q) c = (if q = p then 1 else 0))
        \<and> index n < length (by_parent s p) \<and> by_parent s p ! index n = c)
     \<and> (\<forall>c n. node s c = Some n \<longrightarrow> parentId n = None \<longrightarrow> (\<forall>q. c \<notin> set (by_parent s q)))
     \<and> (\<forall>p. map (\<lambda>c. map_option index (node s c)) (by_parent s p)
              = map Some [0..<length (by_parent s p)])"




subsection \<open>putItemsInFolder (src/model/index.ts)\<close>

text \<open>
  Modelled from the spec: \<^verbatim>\<open>this.bookmarks.folder(id)\<close> of the bookmark model, the node
  with that id when it is a folder.
\<close>

definition folder :: "store \<Rightarrow> NodeID \<Rightarrow> bookmark_node option" where
  "folder s i =
     (case node s i of
        None \<Rightarrow> None
      | Some n \<Rightarrow> if kind n = FolderKind then Some n else None)"

text \<open>
  The loop of \<^verbatim>\<open>putItemsInFolder\<close> over the items that looks for a folder whose id is
  among \<^verbatim>\<open>cyclic_sources\<close>; \<open>True\<close> when it throws.
\<close>

fun cyclic_item :: "NodeID list \<Rightarrow> StashItem list \<Rightarrow> bool" where
  "cyclic_item cyclic_sources [] = False"
| "cyclic_item cyclic_sources (i # items) =
     (if \<not> isFolder i then cyclic_item cyclic_sources items
      else if item_id i \<in> set (map (\<lambda>c. Some (StringID c)) cyclic_sources) then True
      else cyclic_item cyclic_sources items)"

text \<open>
  \<^verbatim>\<open>putItemsInFolder\<close> up to its check for a cycle (lines 495 to 524). What follows the
  check, the loop that moves and creates the bookmarks (lines 526 to 650), is the
  parameter \<open>put_loop\<close>. \<^verbatim>\<open>expect\<close> throws when the destination is not a folder of the
  model.
\<close>

definition putItemsInFolder ::
  "(bookmark_node \<Rightarrow> StashItem list \<Rightarrow> store sys \<Rightarrow> (exn + bookmark_node list) \<times> store sys)
    \<Rightarrow> StashItem list \<Rightarrow> NodeID \<Rightarrow> store sys
    \<Rightarrow> ((exn + bookmark_node list) \<times> store sys) option" where
  "putItemsInFolder put_loop items toFolderId s =
     (case folder (world s) toFolderId of
        None \<Rightarrow> Some (Inl (Error (''Destination folder does not exist: '' @ toFolderId)), s)
      | Some to_folder \<Rightarrow>
          (case pathTo (world s) (nid to_folder) of
             None \<Rightarrow> None
           | Some path \<Rightarrow>
               if cyclic_item (map pos_parent path @ [nid to_folder]) items
               then Some (Inl (UserError ''Cannot move a group into itself''), s)
               else Some (put_loop to_folder items s)))"

subsection \<open>A tree for the examples\<close>

text \<open>
  A tree in the shape of the tests' fixture: the root, the folder "root" with two
  bookmarks, the folder "outside" (a bookmark, a separator, a bookmark, an empty folder)
  and the stash root "Tab Stash" with the folder "names".
\<close>

definition the_store :: "store result \<Rightarrow> store" where
  "the_store r = (case r of Some (Inr s) \<Rightarrow> s | _ \<Rightarrow> empty_store)"

definition succeeded :: "store result \<Rightarrow> bool" where
  "succeeded r = (case r of Some (Inr s) \<Rightarrow> True | _ \<Rightarrow> False)"


definition folder_details :: "NodeID \<Rightarrow> string \<Rightarrow> details" where
  "folder_details i t = \<lparr>d_id = i, d_title = t, d_dateAdded = None, d_kind = FolderKind\<rparr>"

definition bookmark_details :: "NodeID \<Rightarrow> string \<Rightarrow> string \<Rightarrow> details" where
  "bookmark_details i t u = \<lparr>d_id = i, d_title = t, d_dateAdded = None, d_kind = BookmarkKind u\<rparr>"

definition separator_details :: "NodeID \<Rightarrow> details" where
  "separator_details i = \<lparr>d_id = i, d_title = [], d_dateAdded = None, d_kind = SeparatorKind\<rparr>"

definition fixture :: BookmarkTreeNode where
  "fixture =
     BookmarkTreeNode (folder_details ''0'' [])
       [BookmarkTreeNode (folder_details ''r'' ''root'')
          [BookmarkTreeNode (bookmark_details ''d1'' ''Doug'' ''#doug'') [],
           BookmarkTreeNode (bookmark_details ''f'' ''Francis'' ''#francis'') [],
           BookmarkTreeNode (folder_details ''o'' ''outside'')
             [BookmarkTreeNode (bookmark_details ''a'' ''Alice'' ''#alice'') [],
              BookmarkTreeNode (separator_details ''s'') [],
              BookmarkTreeNode (bookmark_details ''b'' ''Bob'' ''#bob'') [],
              BookmarkTreeNode (folder_details ''e'' ''empty'') []],
           BookmarkTreeNode (folder_details ''t'' ''Tab Stash'')
             [BookmarkTreeNode (folder_details ''n'' ''names'')
                [BookmarkTreeNode (bookmark_details ''d2'' ''Doug'' ''#doug'') [],
                 BookmarkTreeNode (bookmark_details ''h'' ''Helen'' ''#helen'') []]]]]"

definition loaded :: store where
  "loaded = the_store (load fixture)"

definition state_after :: "store \<Rightarrow> change \<Rightarrow> store" where
  "state_after s c = the_store (apply_change s c)"

definition two_candidates :: store where
  "two_candidates = state_after loaded (Insert (folder_details ''x'' ''Tab Stash'') ''o'' 4)"

definition no_loop :: "bookmark_node \<Rightarrow> StashItem list \<Rightarrow> store sys \<Rightarrow> (exn + bookmark_node list) \<times> store sys" where
  "no_loop to_folder items s = (Inr [], s)"

section \<open>Properties of the stash-item helpers\<close>

lemma filterMap_append: "filterMap (xs @ ys) f = filterMap xs f @ filterMap ys f"
  by (induction xs) (auto split: option.splits)



lemma copying_item_Folder:
  "copying_item (NodeItem (Folder i t cs)) = Some (NewFolder t (copying (map NodeItem cs)))"
  by (simp add: copying_def)




section \<open>The store's invariant is kept\<close>

subsection \<open>Splicing\<close>

lemma length_remove_at: "k < length xs \<Longrightarrow> length (remove_at k xs) = length xs - 1"
  by (simp add: remove_at_def)

lemma nth_remove_at:
  "k < length xs \<Longrightarrow> j < length xs - 1 \<Longrightarrow> remove_at k xs ! j = (if j < k then xs ! j else xs ! Suc j)"
  by (simp add: remove_at_def nth_append min_def)

lemma length_insert_at: "length (insert_at k x xs) = Suc (length xs)"
  by (simp add: insert_at_def)

lemma nth_insert_at:
  "k \<le> length xs \<Longrightarrow> j \<le> length xs \<Longrightarrow>
     insert_at k x xs ! j = (if j < k then xs ! j else if j = k then x else xs ! (j - 1))"
proof -
  assume k: "k \<le> length xs" and j: "j \<le> length xs"
  consider "j < k" | "j = k" | "k < j" by linarith
  then show ?thesis
  proof cases
    case 1 then show ?thesis using k by (simp add: insert_at_def nth_append)
  next
    case 2 then show ?thesis using k by (simp add: insert_at_def nth_append)
  next
    case 3
    then obtain d where d: "j = Suc (k + d)" using less_iff_Suc_add by auto
    then show ?thesis using k j by (simp add: insert_at_def nth_append min_def)
  qed
qed

subsection \<open>Lookups after the primitive steps\<close>

lemma node_by_parent_update [simp]: "node (s\<lparr>by_parent := f\<rparr>) = node s"
  by (simp add: node_def fun_eq_iff)

lemma node_by_url_update [simp]: "node (s\<lparr>by_url := f\<rparr>) = node s"
  by (simp add: node_def fun_eq_iff)

lemma map_of_map_keyed:
  "map_of (map (\<lambda>(i, n). (i, f i n)) xs) j = map_option (f j) (map_of xs j)"
  by (induction xs) auto

lemma node_map_nodes [simp]: "node (map_nodes f s) j = map_option (f j) (node s j)"
  by (simp add: node_def map_nodes_def map_of_map_keyed)

lemma keys_map_nodes [simp]: "map fst (by_id (map_nodes f s)) = map fst (by_id s)"
  by (simp add: map_nodes_def case_prod_unfold comp_def)

lemma by_parent_map_nodes [simp]: "by_parent (map_nodes f s) = by_parent s"
  by (simp add: map_nodes_def)

lemma by_url_map_nodes [simp]: "by_url (map_nodes f s) = by_url s"
  by (simp add: map_nodes_def)

lemma node_url_add [simp]: "node (url_add i k s) = node s"
  by (auto simp: url_add_def node_def split: kind.splits)

lemma node_url_remove [simp]: "node (url_remove i k s) = node s"
  by (auto simp: url_remove_def node_def split: kind.splits)

lemma by_id_url_add [simp]: "by_id (url_add i k s) = by_id s"
  by (simp add: url_add_def split: kind.splits)

lemma by_id_url_remove [simp]: "by_id (url_remove i k s) = by_id s"
  by (simp add: url_remove_def split: kind.splits)

lemma by_parent_url_add [simp]: "by_parent (url_add i k s) = by_parent s"
  by (simp add: url_add_def split: kind.splits)

lemma by_parent_url_remove [simp]: "by_parent (url_remove i k s) = by_parent s"
  by (simp add: url_remove_def split: kind.splits)

lemma set_by_url_add:
  "set (by_url (url_add i k s) u) = (if k = BookmarkKind u then insert i (set (by_url s u)) else set (by_url s u))"
  by (auto simp: url_add_def split: kind.splits)

lemma set_by_url_remove:
  "set (by_url (url_remove i k s) u) = (if k = BookmarkKind u then set (by_url s u) - {i} else set (by_url s u))"
  by (auto simp: url_remove_def split: kind.splits)

lemma distinct_by_url_add: "distinct (by_url s u) \<Longrightarrow> distinct (by_url (url_add i k s) u)"
  by (auto simp: url_add_def distinct_removeAll split: kind.splits)

lemma distinct_by_url_remove: "distinct (by_url s u) \<Longrightarrow> distinct (by_url (url_remove i k s) u)"
  by (auto simp: url_remove_def distinct_removeAll split: kind.splits)

lemma node_add_node:
  "node s (nid n) = None \<Longrightarrow> node (add_node s n) j = (if j = nid n then Some n else node s j)"
  by (auto simp: add_node_def node_def map_add_def split: option.splits)

lemma by_parent_add_node [simp]: "by_parent (add_node s n) = by_parent s"
  by (simp add: add_node_def)

lemma keys_add_node [simp]: "map fst (by_id (add_node s n)) = map fst (by_id s) @ [nid n]"
  by (simp add: add_node_def)

lemma node_delete_node: "node (delete_node s i) j = (if j = i then None else node s j)"
  by (auto simp: delete_node_def node_def delete_conv' split: option.splits)

lemma by_parent_delete_node [simp]: "by_parent (delete_node s i) = by_parent s"
  by (simp add: delete_node_def split: option.splits)

lemma keys_delete_node: "distinct (map fst (by_id s)) \<Longrightarrow> distinct (map fst (by_id (delete_node s i)))"
  by (simp add: delete_node_def distinct_delete split: option.splits)

lemma node_detach:
  assumes "node s i = Some n" "parentId n = Some p"
  shows "node (detach s i) j =
     map_option (\<lambda>m. if j = i then m\<lparr>parentId := None, index := 0\<rparr>
                     else if parentId m = Some p \<and> index n < index m then m\<lparr>index := index m - 1\<rparr>
                     else m) (node s j)"
  using assms by (simp add: detach_def)

lemma by_parent_detach:
  assumes "node s i = Some n" "parentId n = Some p"
  shows "by_parent (detach s i) = (by_parent s)(p := remove_at (index n) (by_parent s p))"
  using assms by (simp add: detach_def)

lemma detach_no_parent: "node s i = Some n \<Longrightarrow> parentId n = None \<Longrightarrow> detach s i = s"
  by (simp add: detach_def)

lemma detach_absent: "node s i = None \<Longrightarrow> detach s i = s"
  by (simp add: detach_def)

lemma keys_detach [simp]: "map fst (by_id (detach s i)) = map fst (by_id s)"
  by (simp add: detach_def split: option.splits)

lemma by_url_detach [simp]: "by_url (detach s i) = by_url s"
  by (simp add: detach_def split: option.splits)

lemma node_attach:
  "node (attach s i p k) j =
     map_option (\<lambda>m. if j = i then m\<lparr>parentId := Some p, index := k\<rparr>
                     else if parentId m = Some p \<and> k \<le> index m then m\<lparr>index := Suc (index m)\<rparr>
                     else m) (node s j)"
  by (simp add: attach_def)

lemma by_parent_attach:
  "by_parent (attach s i p k) = (by_parent s)(p := insert_at k i (by_parent s p))"
  by (simp add: attach_def)

lemma keys_attach [simp]: "map fst (by_id (attach s i p k)) = map fst (by_id s)"
  by (simp add: attach_def)

lemma by_url_attach [simp]: "by_url (attach s i p k) = by_url s"
  by (simp add: attach_def)

subsection \<open>Consequences of the invariant\<close>

lemma slots_distinct:
  assumes "slots_ok s"
  shows "distinct (by_parent s p)"
proof (rule distinct_conv_nth [THEN iffD2], intro allI impI)
  fix a b assume ab: "a < length (by_parent s p)" "b < length (by_parent s p)" "a \<noteq> b"
  from assms ab(1) obtain n where n: "node s (by_parent s p ! a) = Some n" "index n = a"
    by (auto simp: slots_ok_def)
  from assms ab(2) obtain m where m: "node s (by_parent s p ! b) = Some m" "index m = b"
    by (auto simp: slots_ok_def)
  show "by_parent s p ! a \<noteq> by_parent s p ! b"
  proof
    assume "by_parent s p ! a = by_parent s p ! b"
    with n(1) m(1) have "n = m" by simp
    with n(2) m(2) ab(3) show False by simp
  qed
qed

lemma slots_member:
  assumes "slots_ok s" "c \<in> set (by_parent s p)"
  shows "\<exists>n. node s c = Some n \<and> parentId n = Some p \<and> index n < length (by_parent s p)
            \<and> by_parent s p ! index n = c"
proof -
  from assms(2) obtain k where k: "k < length (by_parent s p)" "by_parent s p ! k = c"
    by (auto simp: in_set_conv_nth)
  with assms(1) obtain n where "node s (by_parent s p ! k) = Some n" "parentId n = Some p" "index n = k"
    unfolding slots_ok_def by blast
  with k show ?thesis by auto
qed


lemma parent_relI: "node s c = Some n \<Longrightarrow> parentId n = Some p \<Longrightarrow> (p, c) \<in> parent_rel s"
  by (auto simp: parent_rel_def)

lemma parent_relD: "(p, c) \<in> parent_rel s \<Longrightarrow> \<exists>n. node s c = Some n \<and> parentId n = Some p"
  by (auto simp: parent_rel_def)

lemma keys_ok_cong:
  assumes "keys_ok s" "map fst (by_id s') = map fst (by_id s)"
    "\<And>j. map_option nid (node s' j) = map_option nid (node s j)"
  shows "keys_ok s'"
  unfolding keys_ok_def
proof (intro conjI allI impI)
  show "distinct (map fst (by_id s'))" using assms(1,2) by (simp add: keys_ok_def)
next
  fix j m assume m: "node s' j = Some m"
  with assms(3) [of j] obtain m0 where "node s j = Some m0" "nid m0 = nid m" by (cases "node s j") auto
  with assms(1) show "nid m = j" unfolding keys_ok_def by metis
qed

lemma urls_ok_cong:
  assumes "urls_ok s" "by_url s' = by_url s"
    "\<And>j. map_option kind (node s' j) = map_option kind (node s j)"
  shows "urls_ok s'"
proof -
  have "(\<exists>n. node s' i = Some n \<and> kind n = BookmarkKind u) \<longleftrightarrow>
        (\<exists>n. node s i = Some n \<and> kind n = BookmarkKind u)" for i u
    using assms(3) [of i] by (cases "node s i"; cases "node s' i") auto
  with assms(1,2) show ?thesis by (simp add: urls_ok_def)
qed

subsection \<open>Detaching a node from its parent\<close>

lemma detach_keys_ok: "keys_ok s \<Longrightarrow> keys_ok (detach s i)"
proof (cases "node s i")
  case None
  assume "keys_ok s" then show ?thesis using None by (simp add: detach_absent)
next
  case (Some n)
  assume k: "keys_ok s"
  show ?thesis
  proof (cases "parentId n")
    case None
    then show ?thesis using Some k by (simp add: detach_no_parent)
  next
    case (Some p)
    show ?thesis
      by (rule keys_ok_cong [OF k]) (auto simp: node_detach [OF \<open>node s i = Some n\<close> Some] option.map_comp comp_def intro!: option.map_cong)
  qed
qed

lemma detach_urls_ok: "urls_ok s \<Longrightarrow> urls_ok (detach s i)"
proof (cases "node s i")
  case None
  assume "urls_ok s" then show ?thesis using None by (simp add: detach_absent)
next
  case (Some n)
  assume k: "urls_ok s"
  show ?thesis
  proof (cases "parentId n")
    case None
    then show ?thesis using Some k by (simp add: detach_no_parent)
  next
    case (Some p)
    show ?thesis
      by (rule urls_ok_cong [OF k]) (auto simp: node_detach [OF \<open>node s i = Some n\<close> Some] option.map_comp comp_def intro!: option.map_cong)
  qed
qed

lemma detach_parent_rel: "parent_rel (detach s i) \<subseteq> parent_rel s"
proof (cases "node s i")
  case None
  then show ?thesis by (simp add: detach_absent)
next
  case (Some n)
  show ?thesis
  proof (cases "parentId n")
    case None
    then show ?thesis using Some by (simp add: detach_no_parent)
  next
    case (Some p)
    show ?thesis
      by (auto simp: parent_rel_def node_detach [OF \<open>node s i = Some n\<close> Some] split: if_splits)
  qed
qed

lemma detach_child_ok:
  assumes inv: "child_ok s" "slots_ok s" and n: "node s i = Some n" "parentId n = Some p"
  shows "child_ok (detach s i)"
  unfolding child_ok_def
proof (intro allI impI)
  fix c m' q
  assume c: "node (detach s i) c = Some m'" and q: "parentId m' = Some q"
  let ?cs = "by_parent s p" and ?k = "index n"
  let ?f = "\<lambda>j m. if j = i then m\<lparr>parentId := None, index := 0\<rparr>
                   else if parentId m = Some p \<and> index n < index m then m\<lparr>index := index m - 1\<rparr>
                   else m"
  from inv(1) n have k: "?k < length ?cs" "?cs ! ?k = i" unfolding child_ok_def by blast+
  from c obtain m where m: "node s c = Some m" and m': "m' = ?f c m"
    by (auto simp: node_detach [OF n])
  have ci: "c \<noteq> i" using m' q by (auto split: if_splits)
  have pm: "parentId m = Some q" using m' q ci by (auto split: if_splits)
  from inv(1) m pm obtain pn where pn: "node s q = Some pn" "kind pn = FolderKind"
    and im: "index m < length (by_parent s q)" "by_parent s q ! index m = c"
    unfolding child_ok_def by blast
  have par: "\<exists>pn'. node (detach s i) q = Some pn' \<and> kind pn' = FolderKind"
    using pn by (auto simp: node_detach [OF n])
  have pos: "index m' < length (by_parent (detach s i) q) \<and> by_parent (detach s i) q ! index m' = c"
  proof (cases "q = p")
    case False
    then have "m' = m" using m' ci pm by simp
    then show ?thesis using im False by (simp add: by_parent_detach [OF n])
  next
    case True
    have ne: "index m \<noteq> ?k" using im k ci True by auto
    have bp: "by_parent (detach s i) q = remove_at ?k ?cs"
      using True by (simp add: by_parent_detach [OF n])
    show ?thesis
    proof (cases "index m < ?k")
      case lt: True
      then have "m' = m" using m' ci by simp
      moreover have "index m < length ?cs - 1" using lt k by simp
      ultimately show ?thesis using im True lt k bp
        by (simp add: nth_remove_at length_remove_at)
    next
      case ge: False
      with ne have gt: "?k < index m" by simp
      then have i': "index m' = index m - 1" using m' ci pm True by simp
      have "index m - 1 < length ?cs - 1" using gt im True by simp
      moreover have "\<not> index m - 1 < ?k" using gt by simp
      moreover have "Suc (index m - 1) = index m" using gt by simp
      ultimately show ?thesis using im True k bp i'
        by (simp add: nth_remove_at length_remove_at)
    qed
  qed
  from par pos show "(\<exists>pn. node (detach s i) q = Some pn \<and> kind pn = FolderKind) \<and>
       index m' < length (by_parent (detach s i) q) \<and> by_parent (detach s i) q ! index m' = c"
    by blast
qed

lemma detach_slots_ok:
  assumes inv: "child_ok s" "slots_ok s" and n: "node s i = Some n" "parentId n = Some p"
  shows "slots_ok (detach s i)"
  unfolding slots_ok_def
proof (intro allI impI)
  fix q j
  assume j: "j < length (by_parent (detach s i) q)"
  let ?cs = "by_parent s p" and ?k = "index n"
  from inv(1) n have k: "?k < length ?cs" "?cs ! ?k = i" unfolding child_ok_def by blast+
  show "\<exists>m'. node (detach s i) (by_parent (detach s i) q ! j) = Some m' \<and> parentId m' = Some q \<and> index m' = j"
  proof (cases "q = p")
    case False
    then have bp: "by_parent (detach s i) q = by_parent s q" by (simp add: by_parent_detach [OF n])
    with j inv(2) obtain m where m: "node s (by_parent s q ! j) = Some m" "parentId m = Some q" "index m = j"
      unfolding slots_ok_def by metis
    have "by_parent s q ! j \<noteq> i" using m n False by auto
    then show ?thesis using m bp False by (simp add: node_detach [OF n])
  next
    case True
    have bp: "by_parent (detach s i) q = remove_at ?k ?cs"
      using True by (simp add: by_parent_detach [OF n])
    with j k have j': "j < length ?cs - 1" by (simp add: length_remove_at)
    define j0 where "j0 = (if j < ?k then j else Suc j)"
    have j0: "j0 < length ?cs" "j0 \<noteq> ?k" using j' by (auto simp: j0_def)
    have c: "by_parent (detach s i) q ! j = ?cs ! j0"
      using bp k j' by (simp add: nth_remove_at j0_def)
    from inv(2) j0(1) obtain m where m: "node s (?cs ! j0) = Some m" "parentId m = Some p" "index m = j0"
      unfolding slots_ok_def by metis
    have "distinct ?cs" using inv(2) by (rule slots_distinct)
    then have ci: "?cs ! j0 \<noteq> i" using j0 k by (metis nth_eq_iff_index_eq)
    show ?thesis
    proof (cases "j < ?k")
      case lt: True
      then show ?thesis using m ci c True by (simp add: node_detach [OF n] j0_def)
    next
      case False
      then show ?thesis using m ci c True by (simp add: node_detach [OF n] j0_def)
    qed
  qed
qed

lemma detach_inv: "store_inv s \<Longrightarrow> store_inv (detach s i)"
proof -
  assume inv: "store_inv s"
  show ?thesis
  proof (cases "node s i")
    case None
    then show ?thesis using inv by (simp add: detach_absent)
  next
    case (Some n)
    show ?thesis
    proof (cases "parentId n")
      case None
      then show ?thesis using inv Some by (simp add: detach_no_parent)
    next
      case p: (Some p)
      have "wf (parent_rel (detach s i))"
        using inv detach_parent_rel by (auto simp: store_inv_def intro: wf_subset)
      then show ?thesis
        using inv detach_keys_ok detach_urls_ok detach_child_ok [OF _ _ Some p]
          detach_slots_ok [OF _ _ Some p]
        by (simp add: store_inv_def)
    qed
  qed
qed

lemma detach_node_self:
  "node s i = Some n \<Longrightarrow> node (detach s i) i = Some (n\<lparr>parentId := None, index := (if parentId n = None then index n else 0)\<rparr>)"
  by (cases "parentId n") (simp_all add: detach_no_parent node_detach)

subsection \<open>Attaching a parentless node\<close>

lemma attach_keys_ok: "keys_ok s \<Longrightarrow> keys_ok (attach s i p k)"
  by (rule keys_ok_cong) (auto simp: node_attach option.map_comp comp_def intro!: option.map_cong)

lemma attach_urls_ok: "urls_ok s \<Longrightarrow> urls_ok (attach s i p k)"
  by (rule urls_ok_cong) (auto simp: node_attach option.map_comp comp_def intro!: option.map_cong)

lemma attach_parent_rel:
  assumes "node s i = Some n" "parentId n = None"
  shows "parent_rel (attach s i p k) = insert (p, i) (parent_rel s)"
proof (rule set_eqI, clarify)
  fix a c
  show "(a, c) \<in> parent_rel (attach s i p k) \<longleftrightarrow> (a, c) \<in> insert (p, i) (parent_rel s)"
  proof (cases "c = i")
    case True
    then show ?thesis using assms by (auto simp: parent_rel_def node_attach)
  next
    case False
    then show ?thesis by (cases "node s c") (auto simp: parent_rel_def node_attach)
  qed
qed

lemma attach_child_ok:
  assumes inv: "child_ok s" "slots_ok s" and n: "node s i = Some n" "parentId n = None"
    and p: "node s p = Some pn" "kind pn = FolderKind" and k: "k \<le> length (by_parent s p)"
  shows "child_ok (attach s i p k)"
  unfolding child_ok_def
proof (intro allI impI)
  fix c m' q
  assume c: "node (attach s i p k) c = Some m'" and q: "parentId m' = Some q"
  let ?cs = "by_parent s p"
  let ?f = "\<lambda>j m. if j = i then m\<lparr>parentId := Some p, index := k\<rparr>
                   else if parentId m = Some p \<and> k \<le> index m then m\<lparr>index := Suc (index m)\<rparr>
                   else m"
  from c obtain m where m: "node s c = Some m" and m': "m' = ?f c m"
    by (auto simp: node_attach)
  have bp: "by_parent (attach s i p k) p = insert_at k i ?cs"
    by (simp add: by_parent_attach)
  have parp: "\<exists>pn'. node (attach s i p k) p = Some pn' \<and> kind pn' = FolderKind"
    using p by (auto simp: node_attach)
  show "(\<exists>pn. node (attach s i p k) q = Some pn \<and> kind pn = FolderKind) \<and>
       index m' < length (by_parent (attach s i p k) q) \<and> by_parent (attach s i p k) q ! index m' = c"
  proof (cases "c = i")
    case True
    then have "q = p" "index m' = k" using m' q by auto
    then show ?thesis using parp bp k True by (simp add: length_insert_at nth_insert_at)
  next
    case ci: False
    then have pm: "parentId m = Some q" using m' q by (auto split: if_splits)
    from inv(1) m pm obtain qn where qn: "node s q = Some qn" "kind qn = FolderKind"
      and im: "index m < length (by_parent s q)" "by_parent s q ! index m = c"
      unfolding child_ok_def by blast
    have par: "\<exists>pn'. node (attach s i p k) q = Some pn' \<and> kind pn' = FolderKind"
      using qn by (auto simp: node_attach)
    have pos: "index m' < length (by_parent (attach s i p k) q) \<and> by_parent (attach s i p k) q ! index m' = c"
    proof (cases "q = p")
      case False
      then have "m' = m" using m' ci pm by simp
      then show ?thesis using im False by (simp add: by_parent_attach)
    next
      case True
      show ?thesis
      proof (cases "k \<le> index m")
        case ge: True
        then have "index m' = Suc (index m)" using m' ci pm True by simp
        moreover have "\<not> Suc (index m) < k" "Suc (index m) \<noteq> k" using ge by simp_all
        ultimately show ?thesis using im True bp k
          by (simp add: nth_insert_at length_insert_at)
      next
        case lt: False
        then have "m' = m" using m' ci by simp
        then show ?thesis using im True bp k lt
          by (simp add: nth_insert_at length_insert_at)
      qed
    qed
    from par pos show ?thesis by blast
  qed
qed

lemma attach_slots_ok:
  assumes inv: "child_ok s" "slots_ok s" and n: "node s i = Some n" "parentId n = None"
    and k: "k \<le> length (by_parent s p)"
  shows "slots_ok (attach s i p k)"
  unfolding slots_ok_def
proof (intro allI impI)
  fix q j
  assume j: "j < length (by_parent (attach s i p k) q)"
  let ?cs = "by_parent s p"
  have no_i: "c \<noteq> i" if "node s c = Some m" "parentId m = Some a" for c m a
    using that n by auto
  show "\<exists>m'. node (attach s i p k) (by_parent (attach s i p k) q ! j) = Some m'
          \<and> parentId m' = Some q \<and> index m' = j"
  proof (cases "q = p")
    case False
    then have bp: "by_parent (attach s i p k) q = by_parent s q" by (simp add: by_parent_attach)
    with j inv(2) obtain m where m: "node s (by_parent s q ! j) = Some m" "parentId m = Some q" "index m = j"
      unfolding slots_ok_def by metis
    have "by_parent s q ! j \<noteq> i" using m no_i by blast
    then show ?thesis using m bp False by (simp add: node_attach)
  next
    case True
    have bp: "by_parent (attach s i p k) q = insert_at k i ?cs"
      using True by (simp add: by_parent_attach)
    with j have j': "j \<le> length ?cs" by (simp add: length_insert_at)
    consider "j < k" | "j = k" | "k < j" by linarith
    then show ?thesis
    proof cases
      case 1
      then have jl: "j < length ?cs" using k by simp
      with inv(2) obtain m where m: "node s (?cs ! j) = Some m" "parentId m = Some p" "index m = j"
        unfolding slots_ok_def by metis
      have "?cs ! j \<noteq> i" using m no_i by blast
      then show ?thesis using m bp True 1 k j' by (simp add: node_attach nth_insert_at)
    next
      case 2
      then show ?thesis using n bp True k by (simp add: node_attach nth_insert_at)
    next
      case 3
      then have jl: "j - 1 < length ?cs" using j' by simp
      with inv(2) obtain m where m: "node s (?cs ! (j - 1)) = Some m" "parentId m = Some p" "index m = j - 1"
        unfolding slots_ok_def by metis
      have "?cs ! (j - 1) \<noteq> i" using m no_i by blast
      moreover have "\<not> j < k" "j \<noteq> k" "k \<le> j - 1" "Suc (j - 1) = j" using 3 by simp_all
      ultimately show ?thesis using m bp True k j' by (simp add: node_attach nth_insert_at)
    qed
  qed
qed

lemma attach_inv:
  assumes inv: "store_inv s" and n: "node s i = Some n" "parentId n = None"
    and p: "node s p = Some pn" "kind pn = FolderKind" and k: "k \<le> length (by_parent s p)"
    and cyc: "(i, p) \<notin> (parent_rel s)\<^sup>*"
  shows "store_inv (attach s i p k)"
proof -
  have "wf (parent_rel (attach s i p k))"
    using inv cyc by (simp add: attach_parent_rel [OF n] store_inv_def)
  then show ?thesis
    using inv attach_keys_ok attach_urls_ok attach_child_ok [OF _ _ n p k] attach_slots_ok [OF _ _ n k]
    by (simp add: store_inv_def)
qed

subsection \<open>Adding and deleting a parentless, childless node\<close>

lemma add_node_inv:
  assumes inv: "store_inv s" and fresh: "node s (nid n) = None" and n: "parentId n = None"
  shows "store_inv (add_node s n)"
proof -
  have nd: "node (add_node s n) j = (if j = nid n then Some n else node s j)" for j
    using fresh by (rule node_add_node)
  have "nid n \<notin> set (map fst (by_id s))"
    using fresh by (simp add: node_def map_of_eq_None_iff)
  then have "keys_ok (add_node s n)"
    using inv by (auto simp: keys_ok_def store_inv_def nd)
  moreover have "child_ok (add_node s n)"
    unfolding child_ok_def
  proof (intro allI impI)
    fix c m q assume c: "node (add_node s n) c = Some m" "parentId m = Some q"
    then have m: "node s c = Some m" using n by (auto simp: nd split: if_splits)
    with inv c(2) obtain qn where q: "node s q = Some qn" "kind qn = FolderKind"
      "index m < length (by_parent s q)" "by_parent s q ! index m = c"
      unfolding store_inv_def child_ok_def by blast
    have "q \<noteq> nid n" using q(1) fresh by auto
    then show "(\<exists>pn. node (add_node s n) q = Some pn \<and> kind pn = FolderKind) \<and>
       index m < length (by_parent (add_node s n) q) \<and> by_parent (add_node s n) q ! index m = c"
      using q by (simp add: nd)
  qed
  moreover have "slots_ok (add_node s n)"
    unfolding slots_ok_def
  proof (intro allI impI)
    fix q j assume "j < length (by_parent (add_node s n) q)"
    then have "j < length (by_parent s q)" by simp
    with inv obtain m where m: "node s (by_parent s q ! j) = Some m" "parentId m = Some q" "index m = j"
      unfolding store_inv_def slots_ok_def by metis
    have "by_parent s q ! j \<noteq> nid n" using m fresh by auto
    then show "\<exists>m. node (add_node s n) (by_parent (add_node s n) q ! j) = Some m
        \<and> parentId m = Some q \<and> index m = j"
      using m by (simp add: nd)
  qed
  moreover have "parent_rel (add_node s n) = parent_rel s"
    using n fresh by (auto simp: parent_rel_def nd split: if_splits)
  moreover have "urls_ok (add_node s n)"
  proof -
    have bu: "by_url (add_node s n) = by_url (url_add (nid n) (kind n) s)"
      by (simp add: add_node_def url_add_def split: kind.splits)
    have "nid n \<notin> set (by_url s u)" for u
      using inv fresh by (auto simp: store_inv_def urls_ok_def)
    then show ?thesis
      using inv unfolding urls_ok_def store_inv_def nd bu
      by (auto simp: set_by_url_add distinct_by_url_add split: if_splits)
  qed
  ultimately show ?thesis using inv by (simp add: store_inv_def)
qed

lemma delete_node_inv:
  assumes inv: "store_inv s" and n: "node s i = Some n" "parentId n = None"
    and leaf: "by_parent s i = []"
  shows "store_inv (delete_node s i)"
proof -
  note nd = node_delete_node
  have "keys_ok (delete_node s i)"
    using inv by (auto simp: keys_ok_def store_inv_def nd keys_delete_node split: if_splits)
  moreover have "child_ok (delete_node s i)"
    unfolding child_ok_def
  proof (intro allI impI)
    fix c m q assume c: "node (delete_node s i) c = Some m" "parentId m = Some q"
    then have m: "node s c = Some m" by (auto simp: nd split: if_splits)
    with inv c(2) obtain qn where q: "node s q = Some qn" "kind qn = FolderKind"
      "index m < length (by_parent s q)" "by_parent s q ! index m = c"
      unfolding store_inv_def child_ok_def by blast
    have "q \<noteq> i" using q(3) leaf by auto
    then show "(\<exists>pn. node (delete_node s i) q = Some pn \<and> kind pn = FolderKind) \<and>
       index m < length (by_parent (delete_node s i) q) \<and> by_parent (delete_node s i) q ! index m = c"
      using q by (simp add: nd)
  qed
  moreover have "slots_ok (delete_node s i)"
    unfolding slots_ok_def
  proof (intro allI impI)
    fix q j assume "j < length (by_parent (delete_node s i) q)"
    then have "j < length (by_parent s q)" by simp
    with inv obtain m where m: "node s (by_parent s q ! j) = Some m" "parentId m = Some q" "index m = j"
      unfolding store_inv_def slots_ok_def by metis
    have "by_parent s q ! j \<noteq> i" using m n by auto
    then show "\<exists>n. node (delete_node s i) (by_parent (delete_node s i) q ! j) = Some n
        \<and> parentId n = Some q \<and> index n = j"
      using m by (simp add: nd)
  qed
  moreover have "parent_rel (delete_node s i) \<subseteq> parent_rel s"
    by (auto simp: parent_rel_def nd split: if_splits)
  then have "wf (parent_rel (delete_node s i))"
    using inv by (auto simp: store_inv_def intro: wf_subset)
  moreover have "urls_ok (delete_node s i)"
  proof -
    have bu: "by_url (delete_node s i) = by_url (url_remove i (kind n) s)"
      using n by (simp add: delete_node_def url_remove_def split: kind.splits)
    show ?thesis
      using inv n unfolding urls_ok_def store_inv_def nd bu
      by (auto simp: set_by_url_remove distinct_by_url_remove split: if_splits)
  qed
  ultimately show ?thesis by (simp add: store_inv_def)
qed

subsection \<open>Kinds are untouched by detaching and attaching\<close>

lemma detach_kind: "map_option kind (node (detach s i) j) = map_option kind (node s j)"
proof (cases "node s i")
  case None
  then show ?thesis by (simp add: detach_absent)
next
  case (Some n)
  show ?thesis
  proof (cases "parentId n")
    case None
    then show ?thesis using Some by (simp add: detach_no_parent)
  next
    case (Some p)
    show ?thesis
      by (auto simp: node_detach [OF \<open>node s i = Some n\<close> Some] option.map_comp comp_def intro!: option.map_cong)
  qed
qed

lemma detach_present: "node (detach s i) j = None \<longleftrightarrow> node s j = None"
  using detach_kind [of s i j] by (cases "node s j"; cases "node (detach s i) j") auto

lemma detach_by_parent_leaf: "by_parent s i = [] \<Longrightarrow> by_parent (detach s i) i = []"
  by (auto simp: detach_def remove_at_def split: option.splits)

subsection \<open>The path to a node\<close>

lemma parent_rel_positionOf:
  "(p, c) \<in> parent_rel s \<longleftrightarrow> (\<exists>pos. positionOf s c = Some pos \<and> pos_parent pos = p)"
  by (auto simp: parent_rel_def positionOf_def split: option.splits)

lemma pathTo_loop_wf:
  assumes wf: "wf (parent_rel s)"
  shows "\<exists>path. pathTo_loop s i acc = Some path
           \<and> set (map pos_parent path) = set (map pos_parent acc) \<union> {a. (a, i) \<in> (parent_rel s)\<^sup>+}"
proof (induction i arbitrary: acc rule: wf_induct_rule [OF wf])
  case (1 i)
  show ?case
  proof (cases "positionOf s i")
    case None
    then have "(a, i) \<notin> parent_rel s" for a by (simp add: parent_rel_positionOf)
    then have "{a. (a, i) \<in> (parent_rel s)\<^sup>+} = {}" by (auto elim: tranclE)
    then show ?thesis using None by (subst pathTo_loop.simps) simp
  next
    case (Some pos)
    let ?p = "pos_parent pos"
    have pr: "(?p, i) \<in> parent_rel s" using Some by (simp add: parent_rel_positionOf)
    have uniq: "a = ?p" if "(a, i) \<in> parent_rel s" for a
      using that Some by (auto simp: parent_rel_positionOf)
    from "1.IH" [OF pr, of "pos # acc"] obtain path where path:
      "pathTo_loop s ?p (pos # acc) = Some path"
      "set (map pos_parent path) = set (map pos_parent (pos # acc)) \<union> {a. (a, ?p) \<in> (parent_rel s)\<^sup>+}"
      by blast
    have "{a. (a, i) \<in> (parent_rel s)\<^sup>+} = insert ?p {a. (a, ?p) \<in> (parent_rel s)\<^sup>+}"
    proof (intro set_eqI iffI)
      fix a assume "a \<in> {a. (a, i) \<in> (parent_rel s)\<^sup>+}"
      then have "(a, i) \<in> (parent_rel s)\<^sup>+" by simp
      then show "a \<in> insert ?p {a. (a, ?p) \<in> (parent_rel s)\<^sup>+}"
        by (cases rule: tranclE) (auto dest: uniq)
    next
      fix a assume "a \<in> insert ?p {a. (a, ?p) \<in> (parent_rel s)\<^sup>+}"
      then show "a \<in> {a. (a, i) \<in> (parent_rel s)\<^sup>+}"
        using pr by (auto intro: trancl_into_trancl)
    qed
    with path show ?thesis using Some by (subst pathTo_loop.simps) auto
  qed
qed

lemma pathTo_wf:
  assumes "wf (parent_rel s)"
  shows "\<exists>path. pathTo s i = Some path \<and> set (map pos_parent path) = {a. (a, i) \<in> (parent_rel s)\<^sup>+}"
  using pathTo_loop_wf [OF assms, of i "[]"] by (simp add: pathTo_def)

lemma not_ancestor:
  assumes "pathTo s np = Some path" "wf (parent_rel s)" "np \<noteq> i" "i \<notin> set (map pos_parent path)"
  shows "(i, np) \<notin> (parent_rel s)\<^sup>*"
proof
  assume "(i, np) \<in> (parent_rel s)\<^sup>*"
  then have "(i, np) \<in> (parent_rel s)\<^sup>+" using assms(3) by (auto dest: rtranclD)
  moreover from pathTo_wf [OF assms(2), of np] assms(1)
  have "set (map pos_parent path) = {a. (a, np) \<in> (parent_rel s)\<^sup>+}" by auto
  ultimately show False using assms(4) by auto
qed

subsection \<open>Results\<close>

lemma inv_result_ok [simp]: "inv_result (ok s) \<longleftrightarrow> store_inv s"
  by (simp add: inv_result_def ok_def)

lemma inv_result_fail [simp]: "inv_result (fail e)"
  by (simp add: inv_result_def fail_def)

lemma inv_result_and_then:
  assumes "inv_result m" "\<And>s. store_inv s \<Longrightarrow> inv_result (f s)"
  shows "inv_result (and_then m f)"
  using assms by (auto simp: inv_result_def and_then_def split: option.splits sum.splits)

subsection \<open>Move\<close>

lemma apply_move_inv:
  assumes inv: "store_inv s"
  shows "inv_result (apply_move s i np k)"
proof (cases "node s i")
  case None
  then show ?thesis using inv by (simp add: apply_move_def)
next
  case (Some n)
  show ?thesis
  proof (cases "node s np")
    case None
    then show ?thesis using inv Some by (simp add: apply_move_def)
  next
    case pn: (Some pn)
    have wf: "wf (parent_rel s)" using inv by (simp add: store_inv_def)
    from pathTo_wf [OF wf, of np] obtain path where path: "pathTo s np = Some path" by blast
    show ?thesis
    proof (cases "kind pn \<noteq> FolderKind \<or> np = i \<or> i \<in> set (map pos_parent path)
                  \<or> length (by_parent (detach s i) np) < k")
      case True
      then show ?thesis using Some pn path by (auto simp: apply_move_def)
    next
      case False
      let ?s1 = "detach s i"
      have inv1: "store_inv ?s1" using inv by (rule detach_inv)
      have n1: "node ?s1 i = Some (n\<lparr>parentId := None, index := (if parentId n = None then index n else 0)\<rparr>)"
        using Some by (rule detach_node_self)
      obtain pn1 where pn1: "node ?s1 np = Some pn1" "kind pn1 = FolderKind"
        using detach_kind [of s i np] pn False by (cases "node ?s1 np") auto
      have "(i, np) \<notin> (parent_rel s)\<^sup>*"
        using path wf False by (intro not_ancestor) auto
      then have cyc: "(i, np) \<notin> (parent_rel ?s1)\<^sup>*"
        using rtrancl_mono [OF detach_parent_rel [of s i]] by blast
      have "store_inv (attach ?s1 i np k)"
        using False by (intro attach_inv [OF inv1 n1 _ pn1 _ cyc]) auto
      then show ?thesis using Some pn path False by (simp add: apply_move_def)
    qed
  qed
qed

subsection \<open>Overwriting the fields of a node\<close>

lemma node_set_fields:
  "node (set_fields s i t da k) j =
     map_option (\<lambda>m. if j = i then m\<lparr>title := t, dateAdded := da, kind := k\<rparr> else m) (node s j)"
proof (cases "node s i")
  case None
  then show ?thesis by (cases "j = i") (simp_all add: set_fields_def option.map_ident)
next
  case (Some old)
  then show ?thesis by (simp add: set_fields_def)
qed

lemma by_parent_set_fields [simp]: "by_parent (set_fields s i t da k) = by_parent s"
  by (simp add: set_fields_def split: option.splits)

lemma keys_set_fields [simp]: "map fst (by_id (set_fields s i t da k)) = map fst (by_id s)"
  by (simp add: set_fields_def split: option.splits)

lemma parent_rel_set_fields [simp]: "parent_rel (set_fields s i t da k) = parent_rel s"
proof -
  have "(\<exists>n. node (set_fields s i t da k) c = Some n \<and> parentId n = Some p)
        \<longleftrightarrow> (\<exists>n. node s c = Some n \<and> parentId n = Some p)" for c p
    by (cases "node s c") (auto simp: node_set_fields)
  then show ?thesis by (simp add: parent_rel_def)
qed

lemma set_fields_inv:
  assumes inv: "store_inv s" and leaf: "by_parent s i = [] \<or> k = FolderKind"
  shows "store_inv (set_fields s i t da k)"
proof -
  let ?s' = "set_fields s i t da k"
  note nd = node_set_fields
  have "keys_ok ?s'"
  proof (rule keys_ok_cong [of s])
    show "keys_ok s" using inv by (simp add: store_inv_def)
    show "map fst (by_id ?s') = map fst (by_id s)" by simp
    show "map_option nid (node ?s' j) = map_option nid (node s j)" for j
      by (cases "node s j") (simp_all add: nd)
  qed
  moreover have "child_ok ?s'"
    unfolding child_ok_def
  proof (intro allI impI)
    fix c m' q assume c: "node ?s' c = Some m'" "parentId m' = Some q"
    then obtain m where m: "node s c = Some m" "parentId m = Some q" "index m = index m'"
      by (auto simp: nd split: if_splits)
    with inv obtain qn where q: "node s q = Some qn" "kind qn = FolderKind"
      "index m < length (by_parent s q)" "by_parent s q ! index m = c"
      unfolding store_inv_def child_ok_def by blast
    have "q = i \<Longrightarrow> k = FolderKind" using q(3) leaf by auto
    then have "\<exists>pn. node ?s' q = Some pn \<and> kind pn = FolderKind"
      using q by (auto simp: nd)
    then show "(\<exists>pn. node ?s' q = Some pn \<and> kind pn = FolderKind) \<and>
       index m' < length (by_parent ?s' q) \<and> by_parent ?s' q ! index m' = c"
      using q m by simp
  qed
  moreover have "slots_ok ?s'"
    unfolding slots_ok_def
  proof (intro allI impI)
    fix q j assume "j < length (by_parent ?s' q)"
    then have "j < length (by_parent s q)" by simp
    with inv obtain m where m: "node s (by_parent s q ! j) = Some m" "parentId m = Some q" "index m = j"
      unfolding store_inv_def slots_ok_def by metis
    then show "\<exists>n. node ?s' (by_parent ?s' q ! j) = Some n \<and> parentId n = Some q \<and> index n = j"
      by (auto simp: nd)
  qed
  moreover have "wf (parent_rel ?s')" using inv by (simp add: store_inv_def)
  moreover have "urls_ok ?s'"
  proof (cases "node s i")
    case None
    then show ?thesis using inv by (simp add: set_fields_def store_inv_def)
  next
    case (Some old)
    let ?f = "\<lambda>j m. if j = i then m\<lparr>title := t, dateAdded := da, kind := k\<rparr> else m"
    have bu: "by_url ?s' = by_url (url_add i k (url_remove i (kind old) s))"
      using Some by (simp add: set_fields_def url_add_def url_remove_def split: kind.splits)
    have u: "urls_ok s" using inv by (simp add: store_inv_def)
    have mem: "j \<in> set (by_url s u) \<longleftrightarrow> (\<exists>n. node s j = Some n \<and> kind n = BookmarkKind u)" for j u
      using u by (simp add: urls_ok_def)
    have dist: "distinct (by_url s u)" for u using u by (simp add: urls_ok_def)
    show ?thesis
      unfolding urls_ok_def bu
    proof (intro conjI allI)
      fix u j
      have set_eq: "set (by_url (url_add i k (url_remove i (kind old) s)) u)
            = (if k = BookmarkKind u then insert i (set (by_url s u)) else set (by_url s u) - {i})"
        using mem [of i u] Some by (auto simp: set_by_url_add set_by_url_remove)
      show "j \<in> set (by_url (url_add i k (url_remove i (kind old) s)) u)
            \<longleftrightarrow> (\<exists>n. node ?s' j = Some n \<and> kind n = BookmarkKind u)"
      proof (cases "j = i")
        case True
        then show ?thesis using Some by (simp add: set_eq nd)
      next
        case False
        then show ?thesis using mem [of j u] by (cases "node s j") (simp_all add: set_eq nd)
      qed
    next
      fix u
      show "distinct (by_url (url_add i k (url_remove i (kind old) s)) u)"
        by (intro distinct_by_url_add distinct_by_url_remove dist)
    qed
  qed
  ultimately show ?thesis by (simp add: store_inv_def)
qed

lemma nonfolder_leaf:
  assumes "store_inv s" "node s i = Some n" "kind n \<noteq> FolderKind"
  shows "by_parent s i = []"
proof (rule ccontr)
  assume "by_parent s i \<noteq> []"
  then have "0 < length (by_parent s i)" by simp
  with assms(1) obtain m where "node s (by_parent s i ! 0) = Some m" "parentId m = Some i"
    unfolding store_inv_def slots_ok_def by metis
  with assms(1) obtain pn where "node s i = Some pn" "kind pn = FolderKind"
    unfolding store_inv_def child_ok_def by blast
  with assms(2,3) show False by simp
qed

subsection \<open>Insert, Update, Remove\<close>

lemma apply_update_inv:
  assumes inv: "store_inv s"
  shows "inv_result (apply_update s i pt)"
proof (cases "node s i")
  case None
  then show ?thesis using inv by (simp add: apply_update_def)
next
  case (Some n)
  let ?k = "case (kind n, p_url pt) of (BookmarkKind u, Some u') \<Rightarrow> BookmarkKind u' | (k, _) \<Rightarrow> k"
  have "by_parent s i = [] \<or> ?k = FolderKind"
  proof (cases "kind n = FolderKind")
    case True
    then show ?thesis by simp
  next
    case False
    then show ?thesis using nonfolder_leaf [OF inv Some] by simp
  qed
  then show ?thesis using Some inv by (simp add: apply_update_def set_fields_inv)
qed

lemma fresh_not_ancestor:
  assumes "child_ok s" "node s i = None" "i \<noteq> p"
  shows "(i, p) \<notin> (parent_rel s)\<^sup>*"
proof
  assume "(i, p) \<in> (parent_rel s)\<^sup>*"
  with assms(3) obtain c where "(i, c) \<in> parent_rel s" by (auto elim: converse_rtranclE)
  then obtain m where "node s c = Some m" "parentId m = Some i" by (auto dest: parent_relD)
  with assms(1) have "\<exists>pn. node s i = Some pn" unfolding child_ok_def by blast
  with assms(2) show False by simp
qed

lemma apply_insert_inv:
  assumes inv: "store_inv s"
  shows "inv_result (apply_insert s d p k)"
proof (cases "node s (d_id d)")
  case (Some old)
  show ?thesis
  proof (cases "by_parent s (d_id d) \<noteq> [] \<and> d_kind d \<noteq> FolderKind")
    case True
    then show ?thesis using Some by (simp add: apply_insert_def)
  next
    case False
    then have "store_inv (overwrite s d)"
      unfolding overwrite_def by (intro set_fields_inv [OF inv]) auto
    then show ?thesis using Some False by (simp add: apply_insert_def apply_move_inv)
  qed
next
  case None
  show ?thesis
  proof (cases "node s p")
    case pn: None
    then show ?thesis using None inv by (simp add: apply_insert_def)
  next
    case pn: (Some pn)
    show ?thesis
    proof (cases "kind pn \<noteq> FolderKind \<or> length (by_parent s p) < k")
      case True
      then show ?thesis using None pn by (auto simp: apply_insert_def)
    next
      case False
      let ?n = "new_node d" and ?s1 = "add_node s (new_node d)"
      have fresh: "node s (nid ?n) = None" using None by (simp add: new_node_def)
      have par: "parentId ?n = None" by (simp add: new_node_def)
      have inv1: "store_inv ?s1" using inv fresh par by (rule add_node_inv)
      have nd: "node ?s1 j = (if j = d_id d then Some ?n else node s j)" for j
        using node_add_node [OF fresh, of j] by (simp add: new_node_def)
      have ip: "d_id d \<noteq> p" using None pn by auto
      have "parent_rel ?s1 = parent_rel s"
        using par None by (auto simp: parent_rel_def nd split: if_splits)
      moreover have "(d_id d, p) \<notin> (parent_rel s)\<^sup>*"
        using inv None ip by (intro fresh_not_ancestor) (auto simp: store_inv_def)
      ultimately have cyc: "(d_id d, p) \<notin> (parent_rel ?s1)\<^sup>*" by simp
      have "store_inv (attach ?s1 (d_id d) p k)"
        using False ip pn by (intro attach_inv [OF inv1 _ par _ _ _ cyc, where pn = pn]) (auto simp: nd)
      then show ?thesis using None pn False by (simp add: apply_insert_def)
    qed
  qed
qed

lemma remove_leaf_inv:
  assumes inv: "store_inv s" and n: "node s i = Some n" and leaf: "by_parent s i = []"
  shows "store_inv (delete_node (detach s i) i)"
proof -
  have "store_inv (detach s i)" using inv by (rule detach_inv)
  moreover note detach_node_self [OF n]
  moreover have "by_parent (detach s i) i = []" using leaf by (rule detach_by_parent_leaf)
  ultimately show ?thesis by (intro delete_node_inv) auto
qed

lemma apply_remove_inv:
  assumes inv: "store_inv s"
  shows "inv_result (apply_remove s i)"
proof (cases "node s i")
  case None
  then show ?thesis using inv by (simp add: apply_remove_def)
next
  case (Some n)
  then show ?thesis using inv by (simp add: apply_remove_def remove_leaf_inv)
qed

subsection \<open>RemoveTree\<close>

lemma finite_parent_rel: "finite (parent_rel s)"
proof -
  have "parent_rel s \<subseteq> (\<lambda>(c, n). (the (parentId n), c)) ` set (by_id s)"
  proof
    fix x assume "x \<in> parent_rel s"
    then obtain p c n where x: "x = (p, c)" "node s c = Some n" "parentId n = Some p"
      by (auto simp: parent_rel_def)
    then have "(c, n) \<in> set (by_id s)" by (auto simp: node_def dest: map_of_SomeD)
    then show "x \<in> (\<lambda>(c, n). (the (parentId n), c)) ` set (by_id s)"
      using x by force
  qed
  then show ?thesis by (rule finite_subset) simp
qed

lemma wf_child_rel: "store_inv s \<Longrightarrow> wf ((parent_rel s)\<inverse>)"
  by (intro finite_acyclic_wf_converse finite_parent_rel wf_acyclic) (simp add: store_inv_def)

lemma length_delete_node:
  assumes "node s i = Some n"
  shows "length (by_id (delete_node s i)) < length (by_id s)"
proof -
  have "length (AList.delete i xs) < length xs" if "map_of xs i = Some n" for xs :: "(NodeID \<times> bookmark_node) list"
    using that
  proof (induction xs)
    case Nil
    then show ?case by simp
  next
    case (Cons x xs)
    have "length (AList.delete i xs) \<le> length xs"
      by (simp add: AList.delete_eq)
    then show ?case using Cons by (cases x) (auto split: if_splits)
  qed
  then show ?thesis using assms by (simp add: delete_node_def node_def)
qed

lemma length_detach: "length (by_id (detach s i)) = length (by_id s)"
  using keys_detach [of s i] by (metis length_map)

lemma remove_leaf_removed:
  assumes inv: "store_inv s" and n: "node s i = Some n" and leaf: "by_parent s i = []"
  shows "removed s i (delete_node (detach s i) i)"
proof -
  let ?s1 = "detach s i"
  have n1: "node ?s1 i \<noteq> None" using n by (simp add: detach_present)
  then have "length (by_id (delete_node ?s1 i)) < length (by_id s)"
    using length_delete_node [of ?s1 i] length_detach [of s i] by auto
  moreover have "parent_rel (delete_node ?s1 i) \<subseteq> parent_rel s"
    using detach_parent_rel [of s i] by (auto simp: parent_rel_def node_delete_node split: if_splits)
  moreover have "node (delete_node ?s1 i) x \<noteq> None" if "node s x \<noteq> None" "(i, x) \<notin> (parent_rel s)\<^sup>*" for x
  proof -
    have "x \<noteq> i" using that(2) by auto
    then show ?thesis using that(1) by (simp add: node_delete_node detach_present)
  qed
  ultimately show ?thesis
    using remove_leaf_inv [OF inv n leaf] by (simp add: removed_def node_delete_node)
qed

lemma removeTree_loop_removed:
  assumes "store_inv s" "node s i \<noteq> None"
  shows "\<exists>s'. removeTree_loop s i = Some s' \<and> removed s i s'"
  using assms
proof (induction "length (by_id s)" arbitrary: s i rule: less_induct)
  case less
  note outer = less.hyps
  note inv = \<open>store_inv s\<close>
  have wfc: "wf ((parent_rel s)\<inverse>)" using inv by (rule wf_child_rel)
  have acyc: "acyclic (parent_rel s)" using inv by (simp add: store_inv_def wf_acyclic)
  show ?case using \<open>node s i \<noteq> None\<close>
  proof (induction i rule: wf_induct_rule [OF wfc])
    case (1 i)
    then obtain n where n: "node s i = Some n" by auto
    show ?case
    proof (cases "by_parent s i")
      case Nil
      then show ?thesis
        using remove_leaf_removed [OF inv n Nil] by (subst removeTree_loop.simps) simp
    next
      case (Cons c cs)
      then have "0 < length (by_parent s i)" "by_parent s i ! 0 = c" by simp_all
      with inv obtain m where m: "node s c = Some m" "parentId m = Some i"
        unfolding store_inv_def slots_ok_def by metis
      then have ic: "(i, c) \<in> parent_rel s" by (rule parent_relI)
      then have "(c, i) \<in> (parent_rel s)\<inverse>" by simp
      from "1.IH" [OF this] m(1) obtain s1 where s1: "removeTree_loop s c = Some s1" "removed s c s1"
        by auto
      have "(c, i) \<notin> (parent_rel s)\<^sup>*"
      proof
        assume "(c, i) \<in> (parent_rel s)\<^sup>*"
        with ic have "(i, i) \<in> (parent_rel s)\<^sup>+" by (rule rtrancl_into_trancl2)
        with acyc show False by (simp add: acyclic_def)
      qed
      with s1(2) n have i1: "node s1 i \<noteq> None" by (simp add: removed_def)
      from s1(2) have inv1: "store_inv s1" and len1: "length (by_id s1) < length (by_id s)"
        and sub1: "parent_rel s1 \<subseteq> parent_rel s" by (simp_all add: removed_def)
      from outer [OF len1 inv1 i1] obtain s2 where s2: "removeTree_loop s1 i = Some s2" "removed s1 i s2"
        by blast
      have "removed s i s2"
        unfolding removed_def
      proof (intro conjI allI impI)
        show "store_inv s2" "node s2 i = None" using s2(2) by (simp_all add: removed_def)
        show "length (by_id s2) < length (by_id s)" using s2(2) len1 by (simp add: removed_def)
        show "parent_rel s2 \<subseteq> parent_rel s" using s2(2) sub1 by (auto simp: removed_def)
      next
        fix x assume x: "node s x \<noteq> None" "(i, x) \<notin> (parent_rel s)\<^sup>*"
        have "(c, x) \<notin> (parent_rel s)\<^sup>*" using x(2) ic by (meson converse_rtrancl_into_rtrancl)
        with s1(2) x(1) have "node s1 x \<noteq> None" by (simp add: removed_def)
        moreover have "(i, x) \<notin> (parent_rel s1)\<^sup>*" using x(2) rtrancl_mono [OF sub1] by blast
        ultimately show "node s2 x \<noteq> None" using s2(2) by (simp add: removed_def)
      qed
      then show ?thesis using Cons s1(1) s2(1) by (subst removeTree_loop.simps) simp
    qed
  qed
qed

lemma apply_removeTree_inv:
  assumes inv: "store_inv s"
  shows "inv_result (apply_removeTree s i)"
proof (cases "node s i")
  case None
  then show ?thesis using inv by (simp add: apply_removeTree_def)
next
  case (Some n)
  with removeTree_loop_removed [OF inv, of i] obtain s' where "removeTree_loop s i = Some s'" "removed s i s'"
    by auto
  then show ?thesis using Some by (simp add: apply_removeTree_def inv_result_def removed_def)
qed

lemma apply_change_inv: "store_inv s \<Longrightarrow> inv_result (apply_change s c)"
  by (cases c)
    (simp_all add: apply_insert_inv apply_update_inv apply_move_inv apply_remove_inv apply_removeTree_inv)

subsection \<open>Bulk load\<close>

lemma load_inv_aux:
  shows "store_inv s \<Longrightarrow> inv_result (load_node t p k s)"
    and "store_inv s \<Longrightarrow> inv_result (load_children ts p k s)"
proof (induction t p k s and ts p k s rule: load_node_load_children.induct)
  case (1 d cs p k s)
  then show ?case by (auto intro!: inv_result_and_then apply_insert_inv)
next
  case (2 p k s)
  then show ?case by simp
next
  case (3 t ts p k s)
  then show ?case by (auto intro!: inv_result_and_then)
qed

lemma empty_store_inv: "store_inv empty_store"
  by (simp add: store_inv_def keys_ok_def child_ok_def slots_ok_def urls_ok_def parent_rel_def
      empty_store_def node_def)

lemma load_inv: "inv_result (load t)"
proof (cases t)
  case (BookmarkTreeNode d cs)
  have "store_inv (add_node empty_store (new_node d))"
    by (intro add_node_inv empty_store_inv) (simp_all add: new_node_def node_def empty_store_def)
  then show ?thesis using load_inv_aux(2) BookmarkTreeNode by simp
qed

subsection \<open>Loading a well-formed tree\<close>





subsection \<open>Consequences of the invariant for the operations\<close>

lemma count_list_distinct: "distinct xs \<Longrightarrow> x \<in> set xs \<Longrightarrow> count_list xs x = 1"
  by (induction xs) (auto simp: count_list_0_iff)

lemma inv_occurrences:
  assumes inv: "store_inv s" and n: "node s c = Some n" "parentId n = Some p"
  shows "count_list (by_parent s q) c = (if q = p then 1 else 0)"
proof (cases "c \<in> set (by_parent s q)")
  case True
  from inv have sl: "slots_ok s" by (simp add: store_inv_def)
  from slots_member [OF sl True] n have "q = p" by auto
  moreover have "count_list (by_parent s q) c = 1"
    using True slots_distinct [OF sl] by (intro count_list_distinct)
  ultimately show ?thesis by simp
next
  case False
  have "q \<noteq> p"
  proof
    assume "q = p"
    with inv n have "index n < length (by_parent s q)" "by_parent s q ! index n = c"
      unfolding store_inv_def child_ok_def by blast+
    with False show False by (metis nth_mem)
  qed
  then show ?thesis using False by (simp add: count_list_0_iff)
qed

lemma inv_consistent:
  assumes inv: "store_inv s"
  shows "consistent s"
  unfolding consistent_def
proof (intro conjI allI impI)
  fix c n p q assume n: "node s c = Some n" "parentId n = Some p"
  show "count_list (by_parent s q) c = (if q = p then 1 else 0)"
    using inv n by (rule inv_occurrences)
  show "index n < length (by_parent s p)" "by_parent s p ! index n = c"
    using inv n unfolding store_inv_def child_ok_def by blast+
next
  fix c n q assume n: "node s c = Some n" "parentId n = None"
  show "c \<notin> set (by_parent s q)"
  proof
    assume "c \<in> set (by_parent s q)"
    with inv have "\<exists>m. node s c = Some m \<and> parentId m = Some q"
      using slots_member [of s c q] by (auto simp: store_inv_def)
    with n show False by auto
  qed
next
  fix p
  show "map (\<lambda>c. map_option index (node s c)) (by_parent s p) = map Some [0..<length (by_parent s p)]"
  proof (rule nth_equalityI)
    show "length (map (\<lambda>c. map_option index (node s c)) (by_parent s p))
          = length (map Some [0..<length (by_parent s p)])" by simp
  next
    fix k assume "k < length (map (\<lambda>c. map_option index (node s c)) (by_parent s p))"
    then have k: "k < length (by_parent s p)" by simp
    with inv obtain m where "node s (by_parent s p ! k) = Some m" "index m = k"
      unfolding store_inv_def slots_ok_def by metis
    then show "map (\<lambda>c. map_option index (node s c)) (by_parent s p) ! k
               = map Some [0..<length (by_parent s p)] ! k"
      using k by simp
  qed
qed



lemma removed_absent:
  assumes "store_inv s" "apply_removeTree s i = Some (Inr s')"
  shows "node s' i = None"
proof (cases "node s i")
  case None
  then show ?thesis using assms(2) by (simp add: apply_removeTree_def ok_def)
next
  case (Some n)
  with removeTree_loop_removed [OF assms(1), of i] obtain s2 where "removeTree_loop s i = Some s2" "removed s i s2"
    by auto
  then show ?thesis using assms(2) Some by (auto simp: apply_removeTree_def removed_def)
qed

lemma apply_move_ok:
  assumes inv: "store_inv s" and n: "node s i = Some n" and p: "node s np = Some pn" "kind pn = FolderKind"
    and cyc: "(i, np) \<notin> (parent_rel s)\<^sup>*" and k: "k \<le> length (by_parent (detach s i) np)"
  shows "apply_move s i np k = ok (attach (detach s i) i np k)"
proof -
  have wf: "wf (parent_rel s)" using inv by (simp add: store_inv_def)
  from pathTo_wf [OF wf, of np] obtain path where path: "pathTo s np = Some path"
    "set (map pos_parent path) = {a. (a, np) \<in> (parent_rel s)\<^sup>+}" by blast
  have "np \<noteq> i" using cyc by auto
  moreover have "i \<notin> set (map pos_parent path)" using cyc path(2) by (auto dest: trancl_into_rtrancl)
  ultimately show ?thesis using n p path(1) k by (simp add: apply_move_def)
qed

lemma child_not_ancestor:
  assumes inv: "store_inv s" and n: "node s i = Some n" "parentId n = Some p"
  shows "(i, p) \<notin> (parent_rel s)\<^sup>*"
proof
  assume "(i, p) \<in> (parent_rel s)\<^sup>*"
  moreover have "(p, i) \<in> parent_rel s" using n by (rule parent_relI)
  ultimately have "(p, p) \<in> (parent_rel s)\<^sup>+" by (rule rtrancl_into_trancl2 [rotated])
  moreover have "acyclic (parent_rel s)" using inv by (simp add: store_inv_def wf_acyclic)
  ultimately show False by (simp add: acyclic_def)
qed

lemma remove_at_removeAll:
  assumes "distinct xs" "k < length xs"
  shows "remove_at k xs = removeAll (xs ! k) xs"
proof -
  have xs: "xs = take k xs @ xs ! k # drop (Suc k) xs"
    using assms(2) by (rule id_take_nth_drop)
  with assms(1) have "distinct (take k xs @ xs ! k # drop (Suc k) xs)" by simp
  then have "xs ! k \<notin> set (take k xs)" "xs ! k \<notin> set (drop (Suc k) xs)" by auto
  then have "removeAll (xs ! k) (take k xs @ xs ! k # drop (Suc k) xs) = take k xs @ drop (Suc k) xs"
    by simp
  with xs show ?thesis by (simp add: remove_at_def)
qed

lemma by_parent_detach_removeAll:
  assumes inv: "store_inv s" and n: "node s i = Some n"
  shows "by_parent (detach s i) p = removeAll i (by_parent s p)"
proof -
  have sl: "slots_ok s" using inv by (simp add: store_inv_def)
  have other: "removeAll i (by_parent s p) = by_parent s p" if "parentId n \<noteq> Some p"
  proof -
    have "i \<notin> set (by_parent s p)" using slots_member [OF sl, of i p] n that by auto
    then show ?thesis by simp
  qed
  show ?thesis
  proof (cases "parentId n")
    case None
    then show ?thesis using n other by (simp add: detach_no_parent)
  next
    case (Some q)
    show ?thesis
    proof (cases "p = q")
      case False
      then show ?thesis using other Some by (simp add: by_parent_detach [OF n Some])
    next
      case True
      from inv n Some have k: "index n < length (by_parent s q)" "by_parent s q ! index n = i"
        unfolding store_inv_def child_ok_def by blast+
      have "remove_at (index n) (by_parent s q) = removeAll (by_parent s q ! index n) (by_parent s q)"
        using slots_distinct [OF sl] k(1) by (rule remove_at_removeAll)
      then show ?thesis using True k(2) by (simp add: by_parent_detach [OF n Some])
    qed
  qed
qed


lemma apply_move_cycle:
  assumes inv: "store_inv s" and n: "node s i = Some n" and p: "node s np = Some pn" "kind pn = FolderKind"
    and cyc: "(i, np) \<in> (parent_rel s)\<^sup>*"
  shows "apply_move s i np k = fail StructuralViolation"
proof -
  have wf: "wf (parent_rel s)" using inv by (simp add: store_inv_def)
  from pathTo_wf [OF wf, of np] obtain path where path: "pathTo s np = Some path"
    "set (map pos_parent path) = {a. (a, np) \<in> (parent_rel s)\<^sup>+}" by blast
  have "np = i \<or> i \<in> set (map pos_parent path)"
    using cyc path(2) by (auto simp: rtrancl_eq_or_trancl)
  then show ?thesis using n p path(1) by (auto simp: apply_move_def)
qed









subsection \<open>The stash root\<close>

lemma depth_wf: "wf (parent_rel s) \<Longrightarrow> \<exists>d. depth s i = Some d"
  using pathTo_wf [of s i] by (auto simp: depth_def)

lemma with_depths_wf:
  assumes "wf (parent_rel s)"
  shows "with_depths s cs = Some (map (\<lambda>c. (c, the (depth s (nid c)))) cs)"
proof (induction cs)
  case Nil
  show ?case by simp
next
  case (Cons c cs)
  from depth_wf [OF assms, of "nid c"] obtain d where "depth s (nid c) = Some d" by blast
  with Cons show ?case by simp
qed

lemma topmost_map:
  "topmost (map (\<lambda>c. (c, f c)) cs) = map (\<lambda>c. (c, f c)) (filter (\<lambda>c. f c \<le> min_list (map f cs)) cs)"
  by (simp add: topmost_def filter_map comp_def)

lemma min_list_le: "x \<in> set xs \<Longrightarrow> min_list xs \<le> (x :: nat)"
proof -
  assume x: "x \<in> set xs"
  then have "xs \<noteq> []" by auto
  then have "min_list xs = Min (set xs)" by (rule min_list_Min)
  then show ?thesis using x by simp
qed

lemma min_list_mem: "xs \<noteq> [] \<Longrightarrow> min_list xs \<in> set (xs :: nat list)"
  by (simp add: min_list_Min)

lemma succeeded_inv: "succeeded r \<Longrightarrow> inv_result r \<Longrightarrow> store_inv (the_store r)"
  by (auto simp: succeeded_def inv_result_def the_store_def split: option.splits sum.splits)

lemma succeeded_eq: "succeeded r \<Longrightarrow> r = Some (Inr (the_store r))"
  by (auto simp: succeeded_def the_store_def split: option.splits sum.splits)

subsection \<open>The check of putItemsInFolder\<close>

lemma cyclic_item_iff:
  "cyclic_item cs items \<longleftrightarrow> (\<exists>i \<in> set items. isFolder i \<and> (\<exists>c \<in> set cs. item_id i = Some (StringID c)))"
  by (induction items) auto

section \<open>Claims about the stash-item helpers\<close>



text \<open>
  C10. \<^verbatim>\<open>Model.isURLStashable(url)\<close> is false for an undefined or empty URL, for a URL that
  the browser settings class as a new-tab page or homepage, for a string that the
  \<^verbatim>\<open>URL\<close> constructor rejects, and for a URL that starts with the extension's own base
  URL; it is true for every other URL. The exception of the constructor is caught, so the
  function always returns a boolean.
\<close>

theorem isURLStashable_spec:
  "isURLStashable env url_str =
     (\<exists>u. url_str = Some u \<and> u \<noteq> [] \<and> \<not> isNewTabURL env u
          \<and> (\<exists>parsed. new_URL env u = Inr parsed) \<and> \<not> prefix (runtime_getURL env) u)"
  by (cases url_str) (auto simp: isURLStashable_def split: sum.splits)

theorem isURLStashable_spec_witness:
  "isURLStashable env0 (Some ''http://a'')
   \<and> \<not> isURLStashable env0 None
   \<and> \<not> isURLStashable env0 (Some [])
   \<and> \<not> isURLStashable env0 (Some ''about:newtab'')
   \<and> \<not> isURLStashable env0 (Some ''nonsense'')
   \<and> \<not> isURLStashable env0 (Some ''ext://id/stash.html'')"
  using isURLStashable_spec [of env0 "Some ''http://a''"] isURLStashable_spec [of env0 None]
    isURLStashable_spec [of env0 "Some []"] isURLStashable_spec [of env0 "Some ''about:newtab''"]
    isURLStashable_spec [of env0 "Some ''nonsense''"]
    isURLStashable_spec [of env0 "Some ''ext://id/stash.html''"]
  by (simp add: env0_def)

text \<open>
  C8. \<^verbatim>\<open>Model.attempt(fn)\<close>: when \<^verbatim>\<open>fn\<close> rejects with an error, the error is logged, then
  the model reload is started, and the same error is raised to the caller; when \<^verbatim>\<open>fn\<close>
  resolves, its result is returned and nothing is logged or reloaded.
\<close>

theorem attempt_spec:
  "(fn s = (Inl e, s') \<longrightarrow>
      attempt fn s = (Inl e, s'\<lparr>effects := effects s' @ [LogError e, Reload]\<rparr>))
   \<and> (fn s = (Inr r, s') \<longrightarrow> attempt fn s = (Inr r, s'))"
  by (simp add: attempt_def logError_def reload_def)

theorem attempt_spec_witness:
  "attempt failing_fn \<lparr>world = 0, effects = []\<rparr>
     = (Inl (Error ''boom''), \<lparr>world = 1, effects = [LogError (Error ''boom''), Reload]\<rparr>)
   \<and> attempt failing_fn \<lparr>world = 5, effects = []\<rparr> = (Inr 5, \<lparr>world = 5, effects = []\<rparr>)"
  using attempt_spec [where fn = failing_fn and s = "\<lparr>world = 0, effects = []\<rparr>"
      and e = "Error ''boom''" and s' = "\<lparr>world = 1, effects = []\<rparr>"]
    attempt_spec [where fn = failing_fn and s = "\<lparr>world = 5, effects = []\<rparr>"
      and r = 5 and s' = "\<lparr>world = 5, effects = []\<rparr>"]
  by (simp add: failing_fn_def)

section \<open>The example tree\<close>

lemma loaded_succeeded: "succeeded (load fixture)"
  by code_simp

lemma loaded_inv: "store_inv loaded"
  unfolding loaded_def by (rule succeeded_inv [OF loaded_succeeded load_inv])


lemma after_eq: "succeeded (apply_change s c) \<Longrightarrow> apply_change s c = Some (Inr (state_after s c))"
  unfolding state_after_def by (rule succeeded_eq)

lemma after_inv: "store_inv s \<Longrightarrow> succeeded (apply_change s c) \<Longrightarrow> store_inv (state_after s c)"
  unfolding state_after_def by (rule succeeded_inv [OF _ apply_change_inv])

lemma two_candidates_succeeded:
  "succeeded (apply_change loaded (Insert (folder_details ''x'' ''Tab Stash'') ''o'' 4))"
  by code_simp

lemma two_candidates_inv: "store_inv two_candidates"
  unfolding two_candidates_def by (rule after_inv [OF loaded_inv two_candidates_succeeded])

text \<open>
  The scenarios of \<^verbatim>\<open>bookmarks.test.ts\<close> on the example tree: "inserts bookmarks into the
  tree", "inserts duplicate bookmarks gracefully", "removes bookmarks idempotently",
  "reorders bookmarks (backward)", "moves bookmarks between folders", "removes folders
  idempotently", "finds the stash root during construction", "finds multiple stash roots
  at the same level", "loses the stash root when it is renamed".
\<close>

lemma scenario_insert:
  "by_parent (state_after loaded (Insert (bookmark_details ''new'' ''New'' ''/new'') ''r'' 2)) ''r''
     = [''d1'', ''f'', ''new'', ''o'', ''t'']
   \<and> by_url (state_after loaded (Insert (bookmark_details ''new'' ''New'' ''/new'') ''r'' 2)) ''/new''
     = [''new'']
   \<and> map (\<lambda>c. map_option index
          (node (state_after loaded (Insert (bookmark_details ''new'' ''New'' ''/new'') ''r'' 2)) c))
        [''d1'', ''f'', ''new'', ''o'', ''t'']
     = [Some 0, Some 1, Some 2, Some 3, Some 4]"
  by code_simp

lemma scenario_insert_duplicate:
  "by_parent (state_after loaded (Insert (bookmark_details ''a'' ''The New A'' ''/new_a'') ''o'' 0)) ''o''
     = [''a'', ''s'', ''b'', ''e'']
   \<and> by_url (state_after loaded (Insert (bookmark_details ''a'' ''The New A'' ''/new_a'') ''o'' 0)) ''#alice''
     = []
   \<and> by_url (state_after loaded (Insert (bookmark_details ''a'' ''The New A'' ''/new_a'') ''o'' 0)) ''/new_a''
     = [''a'']"
  by code_simp

lemma scenario_remove_bookmark:
  "node (state_after loaded (Remove ''b'')) ''b'' = None
   \<and> by_url (state_after loaded (Remove ''b'')) ''#bob'' = []
   \<and> by_parent (state_after loaded (Remove ''b'')) ''o'' = [''a'', ''s'', ''e'']
   \<and> map (\<lambda>c. map_option index (node (state_after loaded (Remove ''b'')) c)) [''a'', ''s'', ''e'']
     = [Some 0, Some 1, Some 2]"
  by code_simp

lemma scenario_reorder_backward:
  "by_parent (state_after loaded (Move ''e'' ''o'' 0)) ''o'' = [''e'', ''a'', ''s'', ''b'']
   \<and> map (\<lambda>c. map_option index (node (state_after loaded (Move ''e'' ''o'' 0)) c))
        [''e'', ''a'', ''s'', ''b'']
     = [Some 0, Some 1, Some 2, Some 3]"
  by code_simp

lemma scenario_move_between_folders:
  "by_parent (state_after loaded (Move ''b'' ''n'' 1)) ''o'' = [''a'', ''s'', ''e'']
   \<and> by_parent (state_after loaded (Move ''b'' ''n'' 1)) ''n'' = [''d2'', ''b'', ''h'']"
  by code_simp

lemma scenario_remove_folder:
  "map (\<lambda>c. node (state_after loaded (RemoveTree ''n'')) c) [''n'', ''d2'', ''h''] = [None, None, None]
   \<and> by_url (state_after loaded (RemoveTree ''n'')) ''#helen'' = []
   \<and> by_url (state_after loaded (RemoveTree ''n'')) ''#doug'' = [''d1'']
   \<and> by_parent (state_after loaded (RemoveTree ''n'')) ''t'' = []"
  by code_simp

lemma scenario_stash_root:
  "map_option (map_option nid) (stash_root loaded ''Tab Stash'') = Some (Some ''t'')
   \<and> stash_root_warning loaded ''Tab Stash'' = Some False
   \<and> stash_root_warning (state_after loaded (Insert (folder_details ''y'' ''Tab Stash'') ''r'' 4))
         ''Tab Stash'' = Some True
   \<and> stash_root (state_after loaded (Update ''t'' \<lparr>p_title = Some ''Old Root'', p_url = None\<rparr>))
         ''Tab Stash'' = Some None"
  by code_simp

section \<open>Claims about the bookmark tree store\<close>




text \<open>
  C3, with the warning as the tests have it: in a consistent store the resolver returns;
  the resolved stash root is undefined exactly when no folder has the designated name; it
  is the candidate when there is exactly one; otherwise it is a candidate with the
  shortest path from the tree root. The warning is set exactly when at least two
  candidates have that shortest path.
\<close>

theorem stash_root_resolution:
  assumes inv: "store_inv s"
  shows "\<exists>r w. stash_root s name = Some r \<and> stash_root_warning s name = Some w
     \<and> (r = None \<longleftrightarrow> candidates s name = [])
     \<and> (\<forall>c. candidates s name = [c] \<longrightarrow> r = Some c)
     \<and> (\<forall>c. r = Some c \<longrightarrow> c \<in> set (candidates s name)
            \<and> (\<forall>c' \<in> set (candidates s name). \<exists>d d'. depth s (nid c) = Some d
                   \<and> depth s (nid c') = Some d' \<and> d \<le> d'))
     \<and> (w \<longleftrightarrow> (\<exists>d. (\<forall>c' \<in> set (candidates s name). \<exists>d'. depth s (nid c') = Some d' \<and> d \<le> d')
                  \<and> 2 \<le> length (filter (\<lambda>c. depth s (nid c) = Some d) (candidates s name))))"
proof -
  have wf: "wf (parent_rel s)" using inv by (simp add: store_inv_def)
  define cs where "cs = candidates s name"
  define dep where "dep = (\<lambda>c :: bookmark_node. the (depth s (nid c)))"
  define m where "m = min_list (map dep cs)"
  define top where "top = filter (\<lambda>c. dep c \<le> m) cs"
  have dep: "depth s (nid c) = Some (dep c)" for c
    using depth_wf [OF wf, of "nid c"] by (auto simp: dep_def)
  have wd: "with_depths s cs = Some (map (\<lambda>c. (c, dep c)) cs)"
    unfolding dep_def by (rule with_depths_wf [OF wf])
  have tm: "topmost (map (\<lambda>c. (c, dep c)) cs) = map (\<lambda>c. (c, dep c)) top"
    by (simp add: topmost_map top_def m_def)
  have m_le: "m \<le> dep c" if "c \<in> set cs" for c
    using that unfolding m_def by (intro min_list_le) simp
  have m_mem: "\<exists>c \<in> set cs. dep c = m" if "cs \<noteq> []"
    using min_list_mem [of "map dep cs"] that by (auto simp: m_def)
  have top_eq: "top = filter (\<lambda>c. dep c = m) cs"
    unfolding top_def by (rule filter_cong) (auto dest: m_le)
  have top_ne: "top \<noteq> []" if "cs \<noteq> []"
    using m_mem [OF that] by (auto simp: top_eq filter_empty_conv)
  define r where "r = (case top of [] \<Rightarrow> None | c # rest \<Rightarrow> Some c)"
  define w where "w = (1 < length top)"
  have sr: "stash_root s name = Some r"
    by (cases top) (simp_all add: stash_root_def cs_def [symmetric] wd tm r_def)
  have sw: "stash_root_warning s name = Some w"
    by (simp add: stash_root_warning_def cs_def [symmetric] wd tm w_def)
  have r_none: "r = None \<longleftrightarrow> cs = []"
  proof
    assume "r = None"
    then have "top = []" by (cases top) (simp_all add: r_def)
    then show "cs = []" using top_ne by blast
  next
    assume "cs = []"
    then show "r = None" by (simp add: r_def top_def)
  qed
  have r_one: "r = Some c" if "cs = [c]" for c
  proof -
    have "top = [c]" using that by (simp add: top_def m_def)
    then show ?thesis by (simp add: r_def)
  qed
  have r_some: "c \<in> set cs \<and> (\<forall>c' \<in> set cs. \<exists>d d'. depth s (nid c) = Some d
                   \<and> depth s (nid c') = Some d' \<and> d \<le> d')" if "r = Some c" for c
  proof -
    from that have "c \<in> set top" by (cases top) (simp_all add: r_def)
    then have c: "c \<in> set cs" "dep c = m" by (simp_all add: top_eq)
    then show ?thesis using dep m_le by auto
  qed
  have w_iff: "w \<longleftrightarrow> (\<exists>d. (\<forall>c' \<in> set cs. \<exists>d'. depth s (nid c') = Some d' \<and> d \<le> d')
                  \<and> 2 \<le> length (filter (\<lambda>c. depth s (nid c) = Some d) cs))"
  proof
    assume "w"
    then have "2 \<le> length (filter (\<lambda>c. depth s (nid c) = Some m) cs)"
      by (simp add: w_def top_eq dep)
    moreover have "\<forall>c' \<in> set cs. \<exists>d'. depth s (nid c') = Some d' \<and> m \<le> d'"
      using dep m_le by auto
    ultimately show "\<exists>d. (\<forall>c' \<in> set cs. \<exists>d'. depth s (nid c') = Some d' \<and> d \<le> d')
                  \<and> 2 \<le> length (filter (\<lambda>c. depth s (nid c) = Some d) cs)" by blast
  next
    assume "\<exists>d. (\<forall>c' \<in> set cs. \<exists>d'. depth s (nid c') = Some d' \<and> d \<le> d')
                  \<and> 2 \<le> length (filter (\<lambda>c. depth s (nid c) = Some d) cs)"
    then obtain d where lb: "\<forall>c' \<in> set cs. \<exists>d'. depth s (nid c') = Some d' \<and> d \<le> d'"
      and two: "2 \<le> length (filter (\<lambda>c. depth s (nid c) = Some d) cs)" by blast
    from two have ne: "filter (\<lambda>c. depth s (nid c) = Some d) cs \<noteq> []" by auto
    then obtain c0 where c0: "c0 \<in> set cs" "dep c0 = d"
      by (auto simp: filter_empty_conv dep)
    have "cs \<noteq> []" using c0 by auto
    from m_mem [OF this] obtain c1 where c1: "c1 \<in> set cs" "dep c1 = m" by blast
    have "d \<le> m" using lb c1 dep [of c1] by auto
    moreover have "m \<le> d" using m_le [OF c0(1)] c0(2) by simp
    ultimately have "d = m" by simp
    then show "w" using two by (simp add: w_def top_eq dep)
  qed
  from sr sw r_none r_one r_some w_iff show ?thesis
    unfolding cs_def by blast
qed

theorem stash_root_resolution_witness:
  "store_inv two_candidates
   \<and> map_option (map_option nid) (stash_root two_candidates ''Tab Stash'') = Some (Some ''t'')
   \<and> (\<exists>r w. stash_root two_candidates ''Tab Stash'' = Some r
         \<and> stash_root_warning two_candidates ''Tab Stash'' = Some w
         \<and> (r = None \<longleftrightarrow> candidates two_candidates ''Tab Stash'' = [])
         \<and> (\<forall>c. candidates two_candidates ''Tab Stash'' = [c] \<longrightarrow> r = Some c)
         \<and> (\<forall>c. r = Some c \<longrightarrow> c \<in> set (candidates two_candidates ''Tab Stash'')
                \<and> (\<forall>c' \<in> set (candidates two_candidates ''Tab Stash'').
                      \<exists>d d'. depth two_candidates (nid c) = Some d
                         \<and> depth two_candidates (nid c') = Some d' \<and> d \<le> d'))
         \<and> (w \<longleftrightarrow> (\<exists>d. (\<forall>c' \<in> set (candidates two_candidates ''Tab Stash'').
                            \<exists>d'. depth two_candidates (nid c') = Some d' \<and> d \<le> d')
                      \<and> 2 \<le> length (filter (\<lambda>c. depth two_candidates (nid c) = Some d)
                                     (candidates two_candidates ''Tab Stash'')))))"
proof (intro conjI)
  show "store_inv two_candidates" by (rule two_candidates_inv)
  show "map_option (map_option nid) (stash_root two_candidates ''Tab Stash'') = Some (Some ''t'')"
    by code_simp
qed (rule stash_root_resolution [OF two_candidates_inv])

text \<open>
  C3 as it is written, with the warning set exactly while at least two candidates exist,
  does not hold: after a second folder named "Tab Stash" is created inside "outside", two
  candidates exist and the warning is not set (the test "finds the topmost stash root").
\<close>

theorem warning_when_two_counterexample:
  "length (candidates two_candidates ''Tab Stash'') = 2
   \<and> stash_root_warning two_candidates ''Tab Stash'' = Some False
   \<and> \<not> warning_when_two two_candidates ''Tab Stash''"
  by code_simp

text \<open>
  C4. A Remove or RemoveTree event for an id that is not in the store changes nothing and
  raises no error; so does the same event delivered again after it has been applied.
\<close>

theorem remove_idempotent:
  "(node s i = None \<longrightarrow>
      apply_change s (Remove i) = Some (Inr s) \<and> apply_change s (RemoveTree i) = Some (Inr s))
   \<and> (apply_change s (Remove i) = Some (Inr s') \<longrightarrow> apply_change s' (Remove i) = Some (Inr s'))
   \<and> (store_inv s \<longrightarrow> apply_change s (RemoveTree i) = Some (Inr s') \<longrightarrow>
        apply_change s' (RemoveTree i) = Some (Inr s'))"
proof (intro conjI impI)
  assume "node s i = None"
  then show "apply_change s (Remove i) = Some (Inr s)" "apply_change s (RemoveTree i) = Some (Inr s)"
    by (simp_all add: apply_remove_def apply_removeTree_def ok_def)
next
  assume a: "apply_change s (Remove i) = Some (Inr s')"
  have "node s' i = None"
  proof (cases "node s i")
    case None
    then show ?thesis using a by (simp add: apply_remove_def ok_def)
  next
    case (Some n)
    then show ?thesis using a
      by (auto simp: apply_remove_def ok_def fail_def node_delete_node split: if_splits)
  qed
  then show "apply_change s' (Remove i) = Some (Inr s')" by (simp add: apply_remove_def ok_def)
next
  assume "store_inv s" "apply_change s (RemoveTree i) = Some (Inr s')"
  then have "node s' i = None" using removed_absent by simp
  then show "apply_change s' (RemoveTree i) = Some (Inr s')" by (simp add: apply_removeTree_def ok_def)
qed

theorem remove_idempotent_witness:
  "node loaded ''zz'' = None
   \<and> apply_change loaded (Remove ''zz'') = Some (Inr loaded)
   \<and> apply_change loaded (RemoveTree ''zz'') = Some (Inr loaded)
   \<and> apply_change loaded (Remove ''b'') = Some (Inr (state_after loaded (Remove ''b'')))
   \<and> apply_change (state_after loaded (Remove ''b'')) (Remove ''b'')
       = Some (Inr (state_after loaded (Remove ''b'')))
   \<and> store_inv loaded
   \<and> apply_change loaded (RemoveTree ''n'') = Some (Inr (state_after loaded (RemoveTree ''n'')))
   \<and> apply_change (state_after loaded (RemoveTree ''n'')) (RemoveTree ''n'')
       = Some (Inr (state_after loaded (RemoveTree ''n'')))"
proof -
  have absent: "node loaded ''zz'' = None" by code_simp
  have "succeeded (apply_change loaded (Remove ''b''))" by code_simp
  then have r: "apply_change loaded (Remove ''b'') = Some (Inr (state_after loaded (Remove ''b'')))"
    by (rule after_eq)
  have "succeeded (apply_change loaded (RemoveTree ''n''))" by code_simp
  then have t: "apply_change loaded (RemoveTree ''n'') = Some (Inr (state_after loaded (RemoveTree ''n'')))"
    by (rule after_eq)
  show ?thesis
    using remove_idempotent [of loaded "''zz''" loaded]
      remove_idempotent [of loaded "''b''" "state_after loaded (Remove ''b'')"]
      remove_idempotent [of loaded "''n''" "state_after loaded (RemoveTree ''n'')"]
      absent r t loaded_inv
    by simp
qed




text \<open>
  C7. In a consistent store, the four children of a parent have the indexes 0, 1, 2, 3.
  Moving the first of them to index 3 of the same parent is applied and gives the order
  of a stable reorder: the three other children, in their order, each with its index
  decremented by one (0, 1, 2), and the moved node last, with index 3; the indexes stay
  consistent.
\<close>

theorem move_forward:
  assumes inv: "store_inv s" and cs: "by_parent s p = [a, b, c, d]"
  shows "map (\<lambda>x. map_option index (node s x)) [a, b, c, d] = [Some 0, Some 1, Some 2, Some 3]
         \<and> (\<exists>s'. apply_change s (Move a p 3) = Some (Inr s')
               \<and> by_parent s' p = [b, c, d, a]
               \<and> map (\<lambda>x. map_option index (node s' x)) [b, c, d, a] = [Some 0, Some 1, Some 2, Some 3]
               \<and> consistent s')"
proof -
  have slot: "map_option index (node t (by_parent t p ! k)) = Some k"
    if "store_inv t" "k < length (by_parent t p)" for t k
  proof -
    from that obtain m where "node t (by_parent t p ! k) = Some m" "index m = k"
      unfolding store_inv_def slots_ok_def by metis
    then show ?thesis by simp
  qed
  have before: "map (\<lambda>x. map_option index (node s x)) [a, b, c, d] = [Some 0, Some 1, Some 2, Some 3]"
    using slot [OF inv, of 0] slot [OF inv, of 1] slot [OF inv, of 2] slot [OF inv, of 3] cs by simp
  then obtain n where n: "node s a = Some n" by auto
  have "0 < length (by_parent s p)" "by_parent s p ! 0 = a" using cs by simp_all
  with inv n have np: "parentId n = Some p"
    unfolding store_inv_def slots_ok_def by (metis option.inject)
  with inv n obtain pn where pn: "node s p = Some pn" "kind pn = FolderKind"
    unfolding store_inv_def child_ok_def by blast
  have cyc: "(a, p) \<notin> (parent_rel s)\<^sup>*" using inv n np by (rule child_not_ancestor)
  have bp1: "by_parent (detach s a) p = [b, c, d]"
    using slots_distinct [of s p] inv cs by (simp add: by_parent_detach_removeAll [OF inv n] store_inv_def)
  let ?s' = "attach (detach s a) a p 3"
  have mv: "apply_move s a p 3 = ok ?s'"
    using bp1 by (intro apply_move_ok [OF inv n pn cyc]) simp
  have inv': "store_inv ?s'" using apply_move_inv [OF inv, of a p 3] mv by simp
  have bp: "by_parent ?s' p = [b, c, d, a]"
    using bp1 by (simp add: by_parent_attach insert_at_def)
  have after: "map (\<lambda>x. map_option index (node ?s' x)) [b, c, d, a] = [Some 0, Some 1, Some 2, Some 3]"
    using slot [OF inv', of 0] slot [OF inv', of 1] slot [OF inv', of 2] slot [OF inv', of 3] bp by simp
  from before mv bp after inv_consistent [OF inv'] show ?thesis
    by (simp add: ok_def)
qed

theorem move_forward_witness:
  "store_inv loaded \<and> by_parent loaded ''o'' = [''a'', ''s'', ''b'', ''e'']
   \<and> map (\<lambda>x. map_option index (node loaded x)) [''a'', ''s'', ''b'', ''e'']
       = [Some 0, Some 1, Some 2, Some 3]
   \<and> (\<exists>s'. apply_change loaded (Move ''a'' ''o'' 3) = Some (Inr s')
          \<and> by_parent s' ''o'' = [''s'', ''b'', ''e'', ''a'']
          \<and> map (\<lambda>x. map_option index (node s' x)) [''s'', ''b'', ''e'', ''a'']
              = [Some 0, Some 1, Some 2, Some 3]
          \<and> consistent s')"
proof -
  have bp: "by_parent loaded ''o'' = [''a'', ''s'', ''b'', ''e'']" by code_simp
  from move_forward [OF loaded_inv bp] loaded_inv bp show ?thesis by blast
qed

section \<open>Claims about putItemsInFolder\<close>

text \<open>
  C6. \<^verbatim>\<open>putItemsInFolder\<close> into a folder of a consistent model: when one of the items is
  a folder that is the destination itself or an ancestor of the destination (so the
  destination is the folder or one of its descendants), the call fails with the user
  error "Cannot move a group into itself" and the model is as it was before the call;
  otherwise the check passes and the items are moved.
\<close>

theorem putItemsInFolder_cycle:
  assumes inv: "store_inv (world s)" and to: "folder (world s) toFolderId = Some to_folder"
  shows "putItemsInFolder put_loop items toFolderId s =
           (if \<exists>i \<in> set items. isFolder i
                 \<and> (\<exists>c. item_id i = Some (StringID c) \<and> (c, toFolderId) \<in> (parent_rel (world s))\<^sup>*)
            then Some (Inl (UserError ''Cannot move a group into itself''), s)
            else Some (put_loop to_folder items s))"
proof -
  from to have n: "node (world s) toFolderId = Some to_folder"
    by (auto simp: folder_def split: option.splits if_splits)
  with inv have nid: "nid to_folder = toFolderId" by (auto simp: store_inv_def keys_ok_def)
  have wf: "wf (parent_rel (world s))" using inv by (simp add: store_inv_def)
  from pathTo_wf [OF wf, of toFolderId] obtain path where path: "pathTo (world s) toFolderId = Some path"
    "set (map pos_parent path) = {a. (a, toFolderId) \<in> (parent_rel (world s))\<^sup>+}" by blast
  have "set (map pos_parent path @ [nid to_folder]) = {a. (a, toFolderId) \<in> (parent_rel (world s))\<^sup>*}"
    using path(2) nid by (auto simp: rtrancl_eq_or_trancl)
  then have "cyclic_item (map pos_parent path @ [nid to_folder]) items \<longleftrightarrow>
      (\<exists>i \<in> set items. isFolder i
          \<and> (\<exists>c. item_id i = Some (StringID c) \<and> (c, toFolderId) \<in> (parent_rel (world s))\<^sup>*))"
    unfolding cyclic_item_iff by blast
  then show ?thesis using to path(1) nid by (simp add: putItemsInFolder_def)
qed

theorem putItemsInFolder_cycle_witness:
  "store_inv (world \<lparr>world = loaded, effects = []\<rparr>)
   \<and> folder (world \<lparr>world = loaded, effects = []\<rparr>) ''e'' = Some (the (node loaded ''e''))
   \<and> putItemsInFolder no_loop [NodeItem (Bookmark ''a'' ''Alice'' ''#alice''), NodeItem (Folder ''o'' ''outside'' [])]
         ''e'' \<lparr>world = loaded, effects = []\<rparr>
       = Some (Inl (UserError ''Cannot move a group into itself''), \<lparr>world = loaded, effects = []\<rparr>)
   \<and> putItemsInFolder no_loop [NodeItem (Folder ''e'' ''empty'' [])] ''e'' \<lparr>world = loaded, effects = []\<rparr>
       = Some (Inl (UserError ''Cannot move a group into itself''), \<lparr>world = loaded, effects = []\<rparr>)"
proof -
  let ?s = "\<lparr>world = loaded, effects = []\<rparr> :: store sys"
  have inv: "store_inv (world ?s)" using loaded_inv by simp
  have to: "folder (world ?s) ''e'' = Some (the (node loaded ''e''))" by code_simp
  have "map_option parentId (node loaded ''e'') = Some (Some ''o'')" by code_simp
  then have "(''o'', ''e'') \<in> parent_rel loaded" by (auto simp: parent_rel_def)
  then have anc: "(''o'', ''e'') \<in> (parent_rel (world ?s))\<^sup>*" by auto
  show ?thesis
    using putItemsInFolder_cycle [OF inv to, of no_loop
        "[NodeItem (Bookmark ''a'' ''Alice'' ''#alice''), NodeItem (Folder ''o'' ''outside'' [])]"]
      putItemsInFolder_cycle [OF inv to, of no_loop "[NodeItem (Folder ''e'' ''empty'' [])]"]
      inv to anc
    by simp
qed

end
